theory Spec2Isabelle
  imports Main "HOL-Library.Multiset"
begin

section \<open>The Gather executor node (src/backend/executor/nodeGather.c)\<close>

text \<open>
  The file is embedded as it is compiled in this repository: with \<^verbatim>\<open>__TBASE__\<close> defined.
  \<^verbatim>\<open>ExecGather\<close> assigns the local variable \<^verbatim>\<open>parallel_send\<close> outside any conditional
  section although the variable is declared only under \<^verbatim>\<open>#ifdef __TBASE__\<close>, so the file has
  no other build; the \<^verbatim>\<open>#else\<close> branches are not part of the program.

  What the node calls but does not define is the environment: the leader's copy of the child
  plan, the parallel context and its workers, the tuple queues, the clock and the interrupt
  flag. It is a record that every function takes and returns. Each external call is also
  written to a log, so that statements about which calls happen, and in which order, can be
  made about the code.

  \<^verbatim>\<open>CHECK_FOR_INTERRUPTS()\<close> raises when the flag \<open>InterruptPending\<close> is set; a raise is
  the result \<open>Inl Interrupted\<close>. Memory contexts and tuple descriptors are left out, and so
  are \<^verbatim>\<open>ExecEndGather\<close> and \<^verbatim>\<open>ExecFinishGather\<close>, which no property below is about.
\<close>

subsection \<open>Data\<close>

type_synonym HeapTuple = nat

text \<open>
  A tuple queue reader. \<^verbatim>\<open>TupleQueueReaderNext(reader, true, &done)\<close> does not block: it
  gives a tuple, or nothing yet, or nothing with \<^verbatim>\<open>done\<close> set. The queue of a worker is the
  finite list of the answers its reads will give before the worker is done (\<open>Some t\<close> a
  tuple, \<open>None\<close> nothing yet); after the list the reader is done. \<open>rid\<close> is the
  index of the worker the reader was created for.
\<close>

record TupleQueueReader =
  rid :: nat
  pending :: "HeapTuple option list"

datatype event =
    EvExecInitParallelPlan int
  | EvExecParallelReinitialize
  | EvLaunchParallelWorkers int
  | EvCreateTupleQueueReader nat
  | EvParallelWorkersSetupDone int
  | EvTupleQueueReaderNext nat "HeapTuple option" bool
  | EvDestroyTupleQueueReader nat
  | EvWaitLatch
  | EvExecProcNode "HeapTuple option"
  | EvExecParallelFinish
  | EvExecParallelCleanup
  | EvExecReScan
  | EvWaitForParallelWorkerDone int bool
  | EvElog nat int
  | EvExecProject HeapTuple

datatype error = Interrupted | NullReaderArray | AssertFailed | OutOfBounds

text \<open>The plan node \<^verbatim>\<open>Gather\<close>: the fields the executor reads.\<close>

record Gather =
  num_workers :: int
  single_copy :: bool
  parallelWorker_sendTuple :: bool
  plan_qual :: "HeapTuple \<Rightarrow> bool"
  plan_targetlist :: "HeapTuple \<Rightarrow> HeapTuple"

record ParallelExecutorInfo =
  nworkers :: int

text \<open>
  \<^verbatim>\<open>GatherState\<close>. \<open>reader\<close> is the array of reader pointers, \<open>None\<close> for \<^verbatim>\<open>NULL\<close>; the
  entries at and after \<open>nreaders\<close> are stale. \<open>nreaders\<close> and \<open>nextreader\<close> are C ints that
  the code keeps non-negative; \<open>get_tuples\<close> and \<open>get_total_time\<close> are 64-bit counters of
  tuples and microseconds, taken without wrap-around.
\<close>

record GatherState =
  ps_plan :: Gather
  ps_qual :: "HeapTuple \<Rightarrow> bool"
  ps_ProjInfo :: "HeapTuple \<Rightarrow> HeapTuple"
  initialized :: bool
  need_to_scan_locally :: bool
  funnel_slot :: "HeapTuple option"
  pei :: "ParallelExecutorInfo option"
  nworkers_launched :: int
  nreaders :: nat
  nextreader :: nat
  reader :: "TupleQueueReader list option"
  get_tuples :: nat
  get_total_time :: int

text \<open>
  The process-wide values the node reads: the \<^verbatim>\<open>enable_statistic\<close> setting,
  \<^verbatim>\<open>IsParallelWorker()\<close> and \<^verbatim>\<open>IsInParallelMode()\<close>.
\<close>

record globals =
  enable_statistic :: bool
  IsParallelWorker :: bool
  IsInParallelMode :: bool

text \<open>
  The environment. \<open>outer_rows\<close> are the tuples the leader's copy of the child plan has
  still to return, \<open>outer_all\<close> what a rescan of the child resets them to. \<open>launches\<close>
  gives, for each coming call of \<^verbatim>\<open>LaunchParallelWorkers\<close>, the queues of the workers that
  will start. \<open>clock\<close> gives the successive readings of \<^verbatim>\<open>GetCurrentTimestamp\<close>.
\<close>

record World =
  InterruptPending :: bool
  outer_rows :: "HeapTuple list"
  outer_all :: "HeapTuple list"
  launches :: "HeapTuple option list list list"
  clock :: "nat \<Rightarrow> int"
  clock_reads :: nat
  trace :: "event list"

subsection \<open>The external calls\<close>

definition log_event :: "event \<Rightarrow> World \<Rightarrow> World" where
  "log_event e w = w\<lparr>trace := trace w @ [e]\<rparr>"

definition log_events :: "event list \<Rightarrow> World \<Rightarrow> World" where
  "log_events es w = w\<lparr>trace := trace w @ es\<rparr>"

definition TupleQueueReaderNext ::
  "TupleQueueReader \<Rightarrow> HeapTuple option \<times> bool \<times> TupleQueueReader" where
  "TupleQueueReaderNext rd =
     (case pending rd of
        [] \<Rightarrow> (None, True, rd)
      | x # xs \<Rightarrow> (x, False, rd\<lparr>pending := xs\<rparr>))"

definition ExecProcNode :: "World \<Rightarrow> HeapTuple option \<times> World" where
  "ExecProcNode w =
     (case outer_rows w of
        [] \<Rightarrow> (None, log_event (EvExecProcNode None) w)
      | t # ts \<Rightarrow> (Some t, log_event (EvExecProcNode (Some t)) (w\<lparr>outer_rows := ts\<rparr>)))"

definition GetCurrentTimestamp :: "World \<Rightarrow> int \<times> World" where
  "GetCurrentTimestamp w = (clock w (clock_reads w), w\<lparr>clock_reads := Suc (clock_reads w)\<rparr>)"

text \<open>
  \<^verbatim>\<open>LaunchParallelWorkers\<close> starts at most as many workers as the parallel context was
  created for, possibly none.
\<close>

definition LaunchParallelWorkers ::
  "ParallelExecutorInfo \<Rightarrow> World \<Rightarrow> HeapTuple option list list \<times> World" where
  "LaunchParallelWorkers p w =
     (case launches w of
        [] \<Rightarrow> ([], log_event (EvLaunchParallelWorkers 0) w)
      | qs # rest \<Rightarrow>
          (let started = take (nat (nworkers p)) qs
           in (started,
               log_event (EvLaunchParallelWorkers (int (length started)))
                 (w\<lparr>launches := rest\<rparr>))))"

text \<open>
  \<^verbatim>\<open>memmove(&a[dst], &a[src], cnt * sizeof(a[0]))\<close> on an array: \<open>cnt\<close> entries from
  \<open>src\<close> on are copied to \<open>dst\<close> on, the other entries stay.
\<close>

definition memmove :: "'a list \<Rightarrow> nat \<Rightarrow> nat \<Rightarrow> nat \<Rightarrow> 'a list" where
  "memmove a dst src cnt = take dst a @ take cnt (drop src a) @ drop (dst + cnt) a"

subsection \<open>ExecInitGather\<close>

definition ExecInitGather :: "Gather \<Rightarrow> GatherState" where
  "ExecInitGather node =
     \<lparr> ps_plan = node,
       ps_qual = plan_qual node,
       ps_ProjInfo = plan_targetlist node,
       initialized = False,
       need_to_scan_locally = (\<not> single_copy node),
       funnel_slot = None,
       pei = None,
       nworkers_launched = 0,
       nreaders = 0,
       nextreader = 0,
       reader = None,
       get_tuples = 0,
       get_total_time = - 1 \<rparr>"

subsection \<open>ExecShutdownGatherWorkers, ExecShutdownGather, ExecReScanGather\<close>

definition ExecShutdownGatherWorkers :: "World \<Rightarrow> GatherState \<Rightarrow> World \<times> GatherState" where
  "ExecShutdownGatherWorkers w node =
     (let (w1, node1) =
            (case reader node of
               None \<Rightarrow> (w, node)
             | Some arr \<Rightarrow>
                 (log_events (map (\<lambda>r. EvDestroyTupleQueueReader (rid r))
                                (take (nreaders node) arr)) w,
                  node\<lparr>reader := None\<rparr>))
      in (if pei node1 \<noteq> None then log_event EvExecParallelFinish w1 else w1, node1))"

definition ExecShutdownGather :: "World \<Rightarrow> GatherState \<Rightarrow> World \<times> GatherState" where
  "ExecShutdownGather w node =
     (let (w1, node1) = ExecShutdownGatherWorkers w node
      in if pei node1 \<noteq> None
         then (log_event EvExecParallelCleanup w1, node1\<lparr>pei := None\<rparr>)
         else (w1, node1))"

definition ExecReScanGather :: "World \<Rightarrow> GatherState \<Rightarrow> World \<times> GatherState" where
  "ExecReScanGather w node =
     (let (w1, node1) = ExecShutdownGatherWorkers w node;
          node2 = node1\<lparr>initialized := False\<rparr>;
          w2 = (if pei node2 \<noteq> None then log_event EvExecParallelReinitialize w1 else w1);
          w3 = log_event EvExecReScan (w2\<lparr>outer_rows := outer_all w2\<rparr>)
      in (w3, node2))"

subsection \<open>gather_readnext\<close>

text \<open>
  One turn of the \<^verbatim>\<open>for (;;)\<close> loop, with the local \<^verbatim>\<open>nvisited\<close> as an argument. The
  turn ends the function (\<open>Exit\<close>, with the tuple or \<^verbatim>\<open>NULL\<close>), goes round again
  (\<open>Again\<close>, with the new \<^verbatim>\<open>nvisited\<close>), or fails: on a pending interrupt, on the
  \<^verbatim>\<open>Assert\<close>, or on a read outside the array.
\<close>

datatype turn =
    Fail error
  | Exit "HeapTuple option" World GatherState
  | Again World GatherState nat

definition gather_readnext_turn :: "World \<Rightarrow> GatherState \<Rightarrow> nat \<Rightarrow> turn" where
  "gather_readnext_turn w gs nvisited =
     (if InterruptPending w then Fail Interrupted
      else case reader gs of
        None \<Rightarrow> Fail NullReaderArray
      | Some arr \<Rightarrow>
          if \<not> nextreader gs < nreaders gs then Fail AssertFailed
          else if \<not> nextreader gs < length arr then Fail OutOfBounds
          else
            (let rd = arr ! nextreader gs;
                 (tup, readerdone, rd') = TupleQueueReaderNext rd;
                 w1 = log_event (EvTupleQueueReaderNext (rid rd) tup readerdone) w;
                 arr1 = arr[nextreader gs := rd']
             in if readerdone then
                  (let w2 = log_event (EvDestroyTupleQueueReader (rid rd)) w1;
                       gs2 = gs\<lparr>reader := Some arr1, nreaders := nreaders gs - 1\<rparr>
                   in if nreaders gs2 = 0 then
                        (let (w3, gs3) = ExecShutdownGatherWorkers w2 gs2
                         in Exit None w3 gs3)
                      else
                        (let gs3 = gs2\<lparr>reader :=
                                     Some (memmove arr1 (nextreader gs2) (nextreader gs2 + 1)
                                             (nreaders gs2 - nextreader gs2))\<rparr>;
                             gs4 = (if nextreader gs3 \<ge> nreaders gs3
                                    then gs3\<lparr>nextreader := 0\<rparr> else gs3)
                         in Again w2 gs4 nvisited))
                else
                  (case tup of
                     Some t \<Rightarrow> Exit (Some t) w1 (gs\<lparr>reader := Some arr1\<rparr>)
                   | None \<Rightarrow>
                       (let gs2 = gs\<lparr>reader := Some arr1, nextreader := nextreader gs + 1\<rparr>;
                            gs3 = (if nextreader gs2 \<ge> nreaders gs2
                                   then gs2\<lparr>nextreader := 0\<rparr> else gs2);
                            nvisited1 = nvisited + 1
                        in if nvisited1 \<ge> nreaders gs3 then
                             (if need_to_scan_locally gs3 then Exit None w1 gs3
                              else Again (log_event EvWaitLatch w1) gs3 0)
                           else Again w1 gs3 nvisited1))))"

text \<open>The readers that are still alive: the first \<open>nreaders\<close> entries of the array.\<close>

definition live :: "GatherState \<Rightarrow> TupleQueueReader list" where
  "live gs = (case reader gs of None \<Rightarrow> [] | Some arr \<Rightarrow> take (nreaders gs) arr)"

text \<open>The work left in the queues: every live reader has its pending answers and its end.\<close>

definition queue_work :: "GatherState \<Rightarrow> nat" where
  "queue_work gs = sum_list (map (\<lambda>r. Suc (length (pending r))) (live gs))"

lemma take_memmove_aux:
  assumes "p \<le> m" "p < length a"
  shows "take m (memmove a p (Suc p) (m - p)) = take p a @ take (m - p) (drop (Suc p) a)"
proof -
  let ?Y = "take (m - p) (drop (Suc p) a)"
  let ?Z = "drop (p + (m - p)) a"
  have len: "length (take p a) = p" using assms by simp
  have 1: "take m (take p a @ ?Y @ ?Z) = take p a @ take (m - p) (?Y @ ?Z)"
    using assms len by (simp add: min_def)
  have 2: "take (m - p) (?Y @ ?Z) = ?Y"
  proof (cases "m - p \<le> length (drop (Suc p) a)")
    case True
    then have "length ?Y = m - p" by simp
    then show ?thesis by simp
  next
    case False
    then have "length a \<le> m" by simp
    then have "?Z = []" using assms by simp
    then show ?thesis by simp
  qed
  show ?thesis unfolding memmove_def using 1 2 by simp
qed

lemma take_memmove:
  assumes "p < n" "p < length a"
  shows "take (n - 1) (memmove a p (p + 1) (n - 1 - p)) = take p (take n a) @ drop (Suc p) (take n a)"
proof -
  have l: "take p (take n a) = take p a" using assms by (simp add: min_def)
  have r: "drop (Suc p) (take n a) = take (n - 1 - p) (drop (Suc p) a)"
    by (simp add: drop_take)
  from assms have "p \<le> n - 1" by simp
  from take_memmove_aux[OF this assms(2)] l r show ?thesis by simp
qed

lemma length_memmove:
  assumes "p < n" "n \<le> length a"
  shows "length (memmove a p (p + 1) (n - 1 - p)) = length a"
  using assms by (auto simp: memmove_def min_def)

text \<open>The four ways a turn goes when the read is inside the array.\<close>

lemma turn_cases [consumes 4, case_names done_last done_more tuple empty]:
  assumes "\<not> InterruptPending w" "reader gs = Some arr"
    "nextreader gs < nreaders gs" "nextreader gs < length arr"
  obtains
    (done_last) "pending (arr ! nextreader gs) = []" "nreaders gs = 1"
      "gather_readnext_turn w gs nv =
         Exit None
           (let w2 = log_event (EvDestroyTupleQueueReader (rid (arr ! nextreader gs)))
                      (log_event (EvTupleQueueReaderNext (rid (arr ! nextreader gs)) None True) w)
            in if pei gs \<noteq> None then log_event EvExecParallelFinish w2 else w2)
           (gs\<lparr>nreaders := 0, reader := None\<rparr>)"
  | (done_more) "pending (arr ! nextreader gs) = []" "1 < nreaders gs"
      "gather_readnext_turn w gs nv =
         Again
           (log_event (EvDestroyTupleQueueReader (rid (arr ! nextreader gs)))
              (log_event (EvTupleQueueReaderNext (rid (arr ! nextreader gs)) None True) w))
           (gs\<lparr>nreaders := nreaders gs - 1,
               reader := Some (memmove arr (nextreader gs) (nextreader gs + 1)
                                 (nreaders gs - 1 - nextreader gs)),
               nextreader := (if nextreader gs \<ge> nreaders gs - 1 then 0 else nextreader gs)\<rparr>)
           nv"
  | (tuple) t rest where "pending (arr ! nextreader gs) = Some t # rest"
      "gather_readnext_turn w gs nv =
         Exit (Some t)
           (log_event (EvTupleQueueReaderNext (rid (arr ! nextreader gs)) (Some t) False) w)
           (gs\<lparr>reader := Some (arr[nextreader gs := (arr ! nextreader gs)\<lparr>pending := rest\<rparr>])\<rparr>)"
  | (empty) rest where "pending (arr ! nextreader gs) = None # rest"
      "gather_readnext_turn w gs nv =
         (let w1 = log_event (EvTupleQueueReaderNext (rid (arr ! nextreader gs)) None False) w;
              gs3 = gs\<lparr>reader := Some (arr[nextreader gs := (arr ! nextreader gs)\<lparr>pending := rest\<rparr>]),
                       nextreader := (if nextreader gs + 1 \<ge> nreaders gs then 0 else nextreader gs + 1)\<rparr>
          in if nv + 1 \<ge> nreaders gs then
               (if need_to_scan_locally gs then Exit None w1 gs3
                else Again (log_event EvWaitLatch w1) gs3 0)
             else Again w1 gs3 (nv + 1))"
proof (cases "pending (arr ! nextreader gs)")
  case Nil
  show ?thesis
  proof (cases "nreaders gs = 1")
    case True
    with Nil assms have "gather_readnext_turn w gs nv =
         Exit None
           (let w2 = log_event (EvDestroyTupleQueueReader (rid (arr ! nextreader gs)))
                      (log_event (EvTupleQueueReaderNext (rid (arr ! nextreader gs)) None True) w)
            in if pei gs \<noteq> None then log_event EvExecParallelFinish w2 else w2)
           (gs\<lparr>nreaders := 0, reader := None\<rparr>)"
      by (simp add: gather_readnext_turn_def TupleQueueReaderNext_def Let_def
          ExecShutdownGatherWorkers_def log_events_def)
    with Nil True show ?thesis by (rule done_last)
  next
    case False
    with assms have n: "1 < nreaders gs" by simp
    with Nil assms have "gather_readnext_turn w gs nv =
         Again
           (log_event (EvDestroyTupleQueueReader (rid (arr ! nextreader gs)))
              (log_event (EvTupleQueueReaderNext (rid (arr ! nextreader gs)) None True) w))
           (gs\<lparr>nreaders := nreaders gs - 1,
               reader := Some (memmove arr (nextreader gs) (nextreader gs + 1)
                                 (nreaders gs - 1 - nextreader gs)),
               nextreader := (if nextreader gs \<ge> nreaders gs - 1 then 0 else nextreader gs)\<rparr>)
           nv"
      by (simp add: gather_readnext_turn_def TupleQueueReaderNext_def Let_def)
    with Nil n show ?thesis by (rule done_more)
  qed
next
  case (Cons x rest)
  show ?thesis
  proof (cases x)
    case None
    with Cons assms have "gather_readnext_turn w gs nv =
         (let w1 = log_event (EvTupleQueueReaderNext (rid (arr ! nextreader gs)) None False) w;
              gs3 = gs\<lparr>reader := Some (arr[nextreader gs := (arr ! nextreader gs)\<lparr>pending := rest\<rparr>]),
                       nextreader := (if nextreader gs + 1 \<ge> nreaders gs then 0 else nextreader gs + 1)\<rparr>
          in if nv + 1 \<ge> nreaders gs then
               (if need_to_scan_locally gs then Exit None w1 gs3
                else Again (log_event EvWaitLatch w1) gs3 0)
             else Again w1 gs3 (nv + 1))"
      by (simp add: gather_readnext_turn_def TupleQueueReaderNext_def Let_def)
    with Cons None show ?thesis by (auto intro: empty)
  next
    case (Some t)
    with Cons assms have "gather_readnext_turn w gs nv =
         Exit (Some t)
           (log_event (EvTupleQueueReaderNext (rid (arr ! nextreader gs)) (Some t) False) w)
           (gs\<lparr>reader := Some (arr[nextreader gs := (arr ! nextreader gs)\<lparr>pending := rest\<rparr>])\<rparr>)"
      by (simp add: gather_readnext_turn_def TupleQueueReaderNext_def Let_def)
    with Cons Some show ?thesis by (auto intro: tuple)
  qed
qed

lemma turn_Again_pre:
  assumes "gather_readnext_turn w gs nv = Again w' gs' nv'"
  obtains arr where "\<not> InterruptPending w" "reader gs = Some arr"
    "nextreader gs < nreaders gs" "nextreader gs < length arr"
  using assms
  by (auto simp: gather_readnext_turn_def split: if_splits option.splits)

lemma turn_Exit_pre:
  assumes "gather_readnext_turn w gs nv = Exit r w' gs'"
  obtains arr where "\<not> InterruptPending w" "reader gs = Some arr"
    "nextreader gs < nreaders gs" "nextreader gs < length arr"
  using assms
  by (auto simp: gather_readnext_turn_def split: if_splits option.splits)

lemma live_done_more:
  assumes "reader gs = Some arr" "nextreader gs < nreaders gs" "nextreader gs < length arr"
  shows "live (gs\<lparr>nreaders := nreaders gs - 1,
               reader := Some (memmove arr (nextreader gs) (nextreader gs + 1)
                                 (nreaders gs - 1 - nextreader gs)),
               nextreader := k\<rparr>)
         = take (nextreader gs) (live gs) @ drop (Suc (nextreader gs)) (live gs)"
  using assms take_memmove[of "nextreader gs" "nreaders gs" arr] by (simp add: live_def)

lemma live_update:
  assumes "reader gs = Some arr"
  shows "live (gs\<lparr>reader := Some (arr[p := x]), nextreader := k\<rparr>) = (live gs)[p := x]"
    and "live (gs\<lparr>reader := Some (arr[p := x])\<rparr>) = (live gs)[p := x]"
  using assms by (simp_all add: live_def take_update_swap)

lemma live_nth:
  assumes "reader gs = Some arr" "p < nreaders gs"
  shows "live gs ! p = arr ! p"
  using assms by (simp add: live_def)

lemma length_live:
  assumes "reader gs = Some arr"
  shows "length (live gs) = min (nreaders gs) (length arr)"
  using assms by (simp add: live_def min.commute)

lemma work_remove:
  assumes "p < length l"
  shows "sum_list (map f (take p l @ drop (Suc p) l)) + f (l ! p) = (sum_list (map f l) :: nat)"
proof -
  have "l = take p l @ l ! p # drop (Suc p) l" using assms by (rule id_take_nth_drop)
  then have "sum_list (map f l) = sum_list (map f (take p l @ l ! p # drop (Suc p) l))" by simp
  then show ?thesis by (simp add: ac_simps)
qed

lemma work_update:
  assumes "p < length l"
  shows "sum_list (map f (l[p := x])) + f (l ! p) = sum_list (map f l) + (f x :: nat)"
proof -
  have "l[p := x] = take p l @ x # drop (Suc p) l" using assms by (rule upd_conv_take_nth_drop)
  then show ?thesis using work_remove[OF assms, of f] by simp
qed

lemma turn_Again_work:
  assumes "gather_readnext_turn w gs nv = Again w' gs' nv'"
  shows "queue_work gs' < queue_work gs"
proof -
  from assms obtain arr where pre: "\<not> InterruptPending w" "reader gs = Some arr"
    "nextreader gs < nreaders gs" "nextreader gs < length arr"
    by (rule turn_Again_pre)
  let ?f = "\<lambda>r. Suc (length (pending r))"
  let ?p = "nextreader gs"
  have pl: "?p < length (live gs)" using pre by (simp add: length_live)
  have nth: "live gs ! ?p = arr ! ?p" using pre by (simp add: live_nth)
  from pre show ?thesis
  proof (cases rule: turn_cases[where nv = nv])
    case done_last
    with assms show ?thesis by simp
  next
    case done_more
    with assms have "live gs' = take ?p (live gs) @ drop (Suc ?p) (live gs)"
      using live_done_more[OF pre(2,3,4)] by auto
    with work_remove[OF pl, of ?f] show ?thesis by (simp add: queue_work_def)
  next
    case (tuple t rest)
    with assms show ?thesis by simp
  next
    case (empty rest)
    with assms have "live gs' = (live gs)[?p := (arr ! ?p)\<lparr>pending := rest\<rparr>]"
      using live_update[OF pre(2)] by (auto simp: Let_def split: if_splits)
    with work_update[OF pl, of ?f "(arr ! ?p)\<lparr>pending := rest\<rparr>"] nth empty(1)
    show ?thesis by (simp add: queue_work_def)
  qed
qed

text \<open>
  The loop. It ends: a turn that goes round again has used up an answer of a queue or
  removed a reader, so \<open>queue_work\<close> has gone down.
\<close>

function gather_readnext_loop ::
  "World \<Rightarrow> GatherState \<Rightarrow> nat \<Rightarrow> error + (HeapTuple option \<times> World \<times> GatherState)" where
  "gather_readnext_loop w gs nvisited =
     (case gather_readnext_turn w gs nvisited of
        Fail e \<Rightarrow> Inl e
      | Exit tup w' gs' \<Rightarrow> Inr (tup, w', gs')
      | Again w' gs' nvisited' \<Rightarrow> gather_readnext_loop w' gs' nvisited')"
  by pat_completeness auto
termination
  by (relation "measure (\<lambda>(w, gs, nv). queue_work gs)") (auto dest: turn_Again_work)

definition gather_readnext ::
  "World \<Rightarrow> GatherState \<Rightarrow> error + (HeapTuple option \<times> World \<times> GatherState)" where
  "gather_readnext w gs = gather_readnext_loop w gs 0"

declare gather_readnext_loop.simps [simp del]

text \<open>What a call of the loop leaves alone.\<close>

definition node_frame :: "GatherState \<Rightarrow> GatherState \<Rightarrow> bool" where
  "node_frame gs gs' \<longleftrightarrow>
     ps_plan gs' = ps_plan gs \<and> ps_qual gs' = ps_qual gs \<and> ps_ProjInfo gs' = ps_ProjInfo gs \<and>
     initialized gs' = initialized gs \<and> need_to_scan_locally gs' = need_to_scan_locally gs \<and>
     funnel_slot gs' = funnel_slot gs \<and> pei gs' = pei gs \<and>
     nworkers_launched gs' = nworkers_launched gs \<and>
     get_tuples gs' = get_tuples gs \<and> get_total_time gs' = get_total_time gs"

definition world_frame :: "World \<Rightarrow> World \<Rightarrow> bool" where
  "world_frame w w' \<longleftrightarrow>
     InterruptPending w' = InterruptPending w \<and> outer_rows w' = outer_rows w \<and>
     outer_all w' = outer_all w \<and> launches w' = launches w \<and>
     clock w' = clock w \<and> clock_reads w' = clock_reads w"

lemma node_frame_refl: "node_frame gs gs"
  by (simp add: node_frame_def)

lemma node_frame_trans: "node_frame a b \<Longrightarrow> node_frame b c \<Longrightarrow> node_frame a c"
  by (simp add: node_frame_def)

lemma world_frame_refl: "world_frame w w"
  by (simp add: world_frame_def)

lemma world_frame_trans: "world_frame a b \<Longrightarrow> world_frame b c \<Longrightarrow> world_frame a c"
  by (simp add: world_frame_def)

lemma world_frame_log [simp]: "world_frame w (log_event e w')  \<longleftrightarrow> world_frame w w'"
  by (simp add: world_frame_def log_event_def)

lemma turn_frame:
  assumes "gather_readnext_turn w gs nv = Again w' gs' nv' \<or>
           gather_readnext_turn w gs nv = Exit r w' gs'"
  shows "node_frame gs gs' \<and> world_frame w w'"
proof -
  from assms obtain arr where pre: "\<not> InterruptPending w" "reader gs = Some arr"
    "nextreader gs < nreaders gs" "nextreader gs < length arr"
    by (auto elim: turn_Again_pre turn_Exit_pre)
  from pre show ?thesis
  proof (cases rule: turn_cases[where nv = nv])
    case done_last
    with assms show ?thesis by (auto simp: node_frame_def world_frame_refl Let_def)
  next
    case done_more
    with assms show ?thesis by (auto simp: node_frame_def world_frame_refl)
  next
    case (tuple t rest)
    with assms show ?thesis by (auto simp: node_frame_def world_frame_refl)
  next
    case (empty rest)
    with assms show ?thesis
      by (auto simp: node_frame_def world_frame_refl Let_def split: if_splits)
  qed
qed

lemma loop_frame:
  "gather_readnext_loop w gs nv = Inr (r, w', gs') \<Longrightarrow> node_frame gs gs' \<and> world_frame w w'"
proof (induction w gs nv rule: gather_readnext_loop.induct)
  case (1 w gs nv)
  show ?case
  proof (cases "gather_readnext_turn w gs nv")
    case (Fail e)
    with "1.prems" show ?thesis by (simp add: gather_readnext_loop.simps)
  next
    case (Exit t w1 gs1)
    with "1.prems" have "t = r" "w1 = w'" "gs1 = gs'" by (simp_all add: gather_readnext_loop.simps)
    with Exit turn_frame show ?thesis by blast
  next
    case (Again w1 gs1 nv1)
    with "1.prems" have "gather_readnext_loop w1 gs1 nv1 = Inr (r, w', gs')"
      by (simp add: gather_readnext_loop.simps)
    with "1.IH"[OF Again] have "node_frame gs1 gs' \<and> world_frame w1 w'" .
    moreover from Again turn_frame have "node_frame gs gs1 \<and> world_frame w w1" by blast
    ultimately show ?thesis by (blast intro: node_frame_trans world_frame_trans)
  qed
qed

text \<open>
  A \<^verbatim>\<open>NULL\<close> result while the leader is not scanning locally means that the last reader
  is gone and the array is freed.
\<close>

lemma turn_Exit_None:
  assumes "gather_readnext_turn w gs nv = Exit None w' gs'" "\<not> need_to_scan_locally gs"
  shows "reader gs' = None"
proof -
  from assms obtain arr where pre: "\<not> InterruptPending w" "reader gs = Some arr"
    "nextreader gs < nreaders gs" "nextreader gs < length arr"
    by (auto elim: turn_Exit_pre)
  from pre show ?thesis
    by (cases rule: turn_cases[where nv = nv]) (use assms in \<open>auto simp: Let_def split: if_splits\<close>)
qed

lemma loop_None:
  "gather_readnext_loop w gs nv = Inr (None, w', gs') \<Longrightarrow> \<not> need_to_scan_locally gs \<Longrightarrow>
   reader gs' = None"
proof (induction w gs nv rule: gather_readnext_loop.induct)
  case (1 w gs nv)
  show ?case
  proof (cases "gather_readnext_turn w gs nv")
    case (Fail e)
    with "1.prems" show ?thesis by (simp add: gather_readnext_loop.simps)
  next
    case (Exit t w1 gs1)
    with "1.prems" have "t = None" "w1 = w'" "gs1 = gs'" by (simp_all add: gather_readnext_loop.simps)
    with Exit "1.prems"(2) turn_Exit_None show ?thesis by blast
  next
    case (Again w1 gs1 nv1)
    with "1.prems" have l: "gather_readnext_loop w1 gs1 nv1 = Inr (None, w', gs')"
      by (simp add: gather_readnext_loop.simps)
    from Again turn_frame have "node_frame gs gs1" by blast
    with "1.prems"(2) have "\<not> need_to_scan_locally gs1" by (simp add: node_frame_def)
    with "1.IH"[OF Again l] show ?thesis .
  qed
qed

subsection \<open>gather_getnext\<close>

text \<open>
  One turn of the \<^verbatim>\<open>while\<close> loop: it ends the function with a slot (\<open>Yield\<close>, the slot
  empty when nothing is left), goes round again (\<open>Repeat\<close>) or fails. A tuple from a worker
  is stored in the funnel slot; a tuple from the local plan is returned in the child's slot.
\<close>

datatype round =
    Broken error
  | Yield "HeapTuple option" World GatherState
  | Repeat World GatherState

definition gather_getnext_round :: "World \<Rightarrow> GatherState \<Rightarrow> round" where
  "gather_getnext_round w gs =
     (if reader gs \<noteq> None \<or> need_to_scan_locally gs then
        (if InterruptPending w then Broken Interrupted
         else
           case (if reader gs \<noteq> None then gather_readnext w gs else Inr (None, w, gs)) of
             Inl e \<Rightarrow> Broken e
           | Inr (Some tup, w1, gs1) \<Rightarrow> Yield (Some tup) w1 (gs1\<lparr>funnel_slot := Some tup\<rparr>)
           | Inr (None, w1, gs1) \<Rightarrow>
               if need_to_scan_locally gs1 then
                 (case ExecProcNode w1 of
                    (Some outerTuple, w2) \<Rightarrow> Yield (Some outerTuple) w2 gs1
                  | (None, w2) \<Rightarrow> Repeat w2 (gs1\<lparr>need_to_scan_locally := False\<rparr>))
               else Repeat w1 gs1)
      else Yield None w (gs\<lparr>funnel_slot := None\<rparr>))"

text \<open>
  The loop ends as well: a turn that goes round again has lost the reader array or has
  cleared \<open>need_to_scan_locally\<close>.
\<close>

definition sources_left :: "GatherState \<Rightarrow> nat" where
  "sources_left gs =
     (if reader gs \<noteq> None then 1 else 0) + (if need_to_scan_locally gs then 1 else 0)"

lemma round_Repeat_sources:
  assumes "gather_getnext_round w gs = Repeat w' gs'"
  shows "sources_left gs' < sources_left gs"
  using assms
  by (auto simp: gather_getnext_round_def sources_left_def gather_readnext_def node_frame_def
      split: if_splits sum.splits option.splits prod.splits dest: loop_None loop_frame)

function gather_getnext ::
  "World \<Rightarrow> GatherState \<Rightarrow> error + (HeapTuple option \<times> World \<times> GatherState)" where
  "gather_getnext w gs =
     (case gather_getnext_round w gs of
        Broken e \<Rightarrow> Inl e
      | Yield slot w' gs' \<Rightarrow> Inr (slot, w', gs')
      | Repeat w' gs' \<Rightarrow> gather_getnext w' gs')"
  by pat_completeness auto
termination
  by (relation "measure (\<lambda>(w, gs). sources_left gs)") (auto dest: round_Repeat_sources)

declare gather_getnext.simps [simp del]

subsection \<open>ExecGather\<close>

text \<open>
  The first part of \<^verbatim>\<open>ExecGather\<close>: what it does when the node is not yet initialized.
  The result carries the locals \<^verbatim>\<open>parallel_send\<close> and \<^verbatim>\<open>launchedWorkers\<close>, which the
  rest of the function reads; both keep their initial values \<^verbatim>\<open>false\<close> and \<^verbatim>\<open>0\<close> in a
  call that finds the node initialized. A reader is created for every launched worker, in
  the order of the workers.
\<close>

definition ExecGather_setup ::
  "globals \<Rightarrow> World \<Rightarrow> GatherState \<Rightarrow> bool \<times> int \<times> World \<times> GatherState" where
  "ExecGather_setup glb w node =
     (if IsParallelWorker glb then
        (if \<not> initialized node
         then (False, 0, w,
               node\<lparr>reader := None, need_to_scan_locally := True, initialized := True\<rparr>)
         else (False, 0, w, node))
      else if \<not> initialized node then
        (let gather = ps_plan node;
             parallel_send = parallelWorker_sendTuple gather;
             (launchedWorkers, w3, node3) =
               (if num_workers gather > 0 \<and> IsInParallelMode glb then
                  (let (p, w1, node1) =
                         (case pei node of
                            None \<Rightarrow>
                              (let p = \<lparr>nworkers = num_workers gather\<rparr>
                               in (p, log_event (EvExecInitParallelPlan (num_workers gather)) w,
                                   node\<lparr>pei := Some p\<rparr>))
                          | Some p \<Rightarrow> (p, log_event EvExecParallelReinitialize w, node));
                       (queues, w2) = LaunchParallelWorkers p w1;
                       node2 = node1\<lparr>nworkers_launched := int (length queues)\<rparr>
                   in if length queues > 0 then
                        (let (w3, node3) =
                               (if \<not> parallel_send then
                                  (log_events (map EvCreateTupleQueueReader [0..<length queues]) w2,
                                   node2\<lparr>nreaders := length queues, nextreader := 0,
                                         reader := Some (map (\<lambda>(i, q). \<lparr>rid = i, pending = q\<rparr>)
                                                           (enumerate 0 queues))\<rparr>)
                                else
                                  (w2, node2\<lparr>nreaders := 0, nextreader := 0, reader := None\<rparr>))
                         in (int (length queues),
                             log_event (EvParallelWorkersSetupDone (int (length queues))) w3,
                             node3))
                      else
                        (let (w3, node3) = ExecShutdownGatherWorkers w2 node2
                         in (0, w3, node3)))
                else (0, w, node));
             node4 = (if parallel_send then node3\<lparr>need_to_scan_locally := False\<rparr>
                      else node3\<lparr>need_to_scan_locally := (reader node3 = None)\<rparr>)
         in (parallel_send, launchedWorkers, w3, node4\<lparr>initialized := True\<rparr>))
      else (False, 0, w, node))"

definition ExecGather ::
  "globals \<Rightarrow> World \<Rightarrow> GatherState \<Rightarrow> error + (HeapTuple option \<times> World \<times> GatherState)" where
  "ExecGather glb w node =
     (if InterruptPending w then Inl Interrupted
      else
        (let (parallel_send, launchedWorkers, w1, node1) = ExecGather_setup glb w node;
             node2 = node1\<lparr>funnel_slot := None\<rparr>
         in if parallel_send then
              Inr (None,
                   log_event (EvWaitForParallelWorkerDone launchedWorkers (launchedWorkers = 0)) w1,
                   node2)
            else
              (let (begin, w2) =
                     (if enable_statistic glb \<and> \<not> need_to_scan_locally node2
                      then GetCurrentTimestamp w1 else (0, w1))
               in case gather_getnext w2 node2 of
                    Inl e \<Rightarrow> Inl e
                  | Inr (None, w3, node3) \<Rightarrow>
                      Inr (None,
                           (if enable_statistic glb \<and> \<not> need_to_scan_locally node3
                            then log_event (EvElog (get_tuples node3) (get_total_time node3)) w3
                            else w3),
                           node3)
                  | Inr (Some slot, w3, node3) \<Rightarrow>
                      (let (w5, node5) =
                             (if enable_statistic glb \<and> \<not> need_to_scan_locally node3 then
                                (let (end, w4) = GetCurrentTimestamp w3
                                 in (w4,
                                     if get_total_time node3 = - 1
                                     then node3\<lparr>get_tuples := get_tuples node3 + 1,
                                                get_total_time := 0\<rparr>
                                     else node3\<lparr>get_tuples := get_tuples node3 + 1,
                                                get_total_time :=
                                                  get_total_time node3 + (end - begin)\<rparr>))
                              else (w3, node3))
                       in Inr (Some (ps_ProjInfo node5 slot),
                               log_event (EvExecProject slot) w5, node5)))))"

text \<open>
  A parent that calls the node \<open>k\<close> times in a row: the slots it gets, in order, and the
  state after the last call. It stops at the first error.
\<close>

fun ExecGather_times ::
  "nat \<Rightarrow> globals \<Rightarrow> World \<Rightarrow> GatherState \<Rightarrow>
   error + (HeapTuple option list \<times> World \<times> GatherState)" where
  "ExecGather_times 0 glb w node = Inr ([], w, node)"
| "ExecGather_times (Suc k) glb w node =
     (case ExecGather glb w node of
        Inl e \<Rightarrow> Inl e
      | Inr (slot, w1, node1) \<Rightarrow>
          (case ExecGather_times k glb w1 node1 of
             Inl e \<Rightarrow> Inl e
           | Inr (slots, w2, node2) \<Rightarrow> Inr (slot # slots, w2, node2)))"

text \<open>
  The time the \<open>j\<close>-th coming call spends reading its tuple, when every call reads the
  clock before and after: the difference of the two readings.
\<close>

definition read_latency :: "World \<Rightarrow> nat \<Rightarrow> int" where
  "read_latency w j = clock w (clock_reads w + 2 * j + 1) - clock w (clock_reads w + 2 * j)"

subsection \<open>The state of the reader array\<close>

text \<open>
  The cursor is inside the live part of the array, the live part is inside the array, and
  the live readers belong to different workers.
\<close>

definition cursor_in_range :: "GatherState \<Rightarrow> bool" where
  "cursor_in_range gs \<longleftrightarrow>
     (case reader gs of
        None \<Rightarrow> False
      | Some arr \<Rightarrow> nextreader gs < nreaders gs \<and> nreaders gs \<le> length arr \<and>
                    distinct (map rid (take (nreaders gs) arr)))"

text \<open>The live readers in the order in which the cursor will meet them.\<close>

definition ring_of :: "nat \<Rightarrow> 'a list \<Rightarrow> 'a list" where
  "ring_of p l = drop p l @ take p l"

definition cursor_ring :: "GatherState \<Rightarrow> nat list" where
  "cursor_ring gs = ring_of (nextreader gs) (map rid (live gs))"

text \<open>
  Fairness of the polling, as a property of the log of a call of \<^verbatim>\<open>gather_readnext\<close>.
  \<open>alive\<close> are the workers whose readers are not destroyed yet, \<open>polled\<close> the workers
  whose readers have been read since the last \<^verbatim>\<open>WaitLatch\<close> (or since the call began): at
  every \<^verbatim>\<open>WaitLatch\<close> each reader that is alive must have been polled.
\<close>

fun polled_between_waits :: "nat set \<Rightarrow> nat set \<Rightarrow> event list \<Rightarrow> bool" where
  "polled_between_waits alive polled [] = True"
| "polled_between_waits alive polled (e # es) =
     (case e of
        EvTupleQueueReaderNext i tup readerdone \<Rightarrow> polled_between_waits alive (insert i polled) es
      | EvDestroyTupleQueueReader i \<Rightarrow> polled_between_waits (alive - {i}) polled es
      | EvWaitLatch \<Rightarrow> alive \<subseteq> polled \<and> polled_between_waits alive {} es
      | _ \<Rightarrow> polled_between_waits alive polled es)"

subsection \<open>What a scan does to the node and to the log\<close>

text \<open>The tuple that an external call hands to the node, if it hands one.\<close>

definition gets_tuple :: "event \<Rightarrow> HeapTuple option" where
  "gets_tuple e =
     (case e of
        EvTupleQueueReaderNext i tup readerdone \<Rightarrow> tup
      | EvExecProcNode tup \<Rightarrow> tup
      | _ \<Rightarrow> None)"

definition is_local_pull :: "event \<Rightarrow> bool" where
  "is_local_pull e = (case e of EvExecProcNode tup \<Rightarrow> True | _ \<Rightarrow> False)"

text \<open>
  What a part of a scan that ends with the slot \<open>r\<close> may do: it leaves the plan, the
  parallel context and the counters alone, it can only clear \<open>need_to_scan_locally\<close>, it
  pulls from the local plan only if \<open>need_to_scan_locally\<close> was set, and a tuple it is
  handed is the slot it ends with.
\<close>

definition scan_frame :: "World \<Rightarrow> GatherState \<Rightarrow> World \<Rightarrow> GatherState \<Rightarrow> bool" where
  "scan_frame w gs w' gs' \<longleftrightarrow>
     ps_plan gs' = ps_plan gs \<and> ps_qual gs' = ps_qual gs \<and> ps_ProjInfo gs' = ps_ProjInfo gs \<and>
     initialized gs' = initialized gs \<and> pei gs' = pei gs \<and>
     nworkers_launched gs' = nworkers_launched gs \<and>
     get_tuples gs' = get_tuples gs \<and> get_total_time gs' = get_total_time gs \<and>
     (need_to_scan_locally gs' \<longrightarrow> need_to_scan_locally gs) \<and>
     InterruptPending w' = InterruptPending w \<and> outer_all w' = outer_all w \<and>
     launches w' = launches w \<and> clock w' = clock w \<and> clock_reads w' = clock_reads w \<and>
     (\<not> need_to_scan_locally gs \<longrightarrow> outer_rows w' = outer_rows w)"

definition scan_step ::
  "HeapTuple option \<Rightarrow> World \<Rightarrow> GatherState \<Rightarrow> World \<Rightarrow> GatherState \<Rightarrow> bool" where
  "scan_step r w gs w' gs' \<longleftrightarrow>
     scan_frame w gs w' gs' \<and>
     (\<exists>es. trace w' = trace w @ es \<and>
        (\<forall>e\<in>set es. (is_local_pull e \<longrightarrow> need_to_scan_locally gs) \<and>
                     (gets_tuple e = None \<or> gets_tuple e = r)))"

subsection \<open>The invariant of the node\<close>

text \<open>
  What holds of the node between the calls of its parent: before the first call of a scan
  there is no reader array, and when there is one the cursor is in range.
\<close>

definition node_inv :: "GatherState \<Rightarrow> bool" where
  "node_inv gs \<longleftrightarrow>
     (\<not> initialized gs \<longrightarrow> reader gs = None) \<and> (reader gs = None \<or> cursor_in_range gs)"

text \<open>The node at the end of a scan: initialized, no reader array, no local scan.\<close>

definition terminal :: "GatherState \<Rightarrow> bool" where
  "terminal gs \<longleftrightarrow>
     initialized gs \<and> reader gs = None \<and> \<not> need_to_scan_locally gs \<and> funnel_slot gs = None"

text \<open>How many times a log pulls a tuple from the local plan.\<close>

definition local_pulls :: "event list \<Rightarrow> nat" where
  "local_pulls es = length (filter is_local_pull es)"

text \<open>The calls of the first part of \<^verbatim>\<open>ExecGather\<close> hand no tuple to the node.\<close>

definition no_tuple_events :: "event list \<Rightarrow> bool" where
  "no_tuple_events es \<longleftrightarrow> (\<forall>e\<in>set es. gets_tuple e = None \<and> \<not> is_local_pull e)"

text \<open>The result of a function of the node, with another qual in the node it returns.\<close>

definition with_qual ::
  "(HeapTuple \<Rightarrow> bool) \<Rightarrow> error + ('a \<times> World \<times> GatherState) \<Rightarrow> error + ('a \<times> World \<times> GatherState)" where
  "with_qual q res = map_sum id (\<lambda>(r, w', gs'). (r, w', gs'\<lparr>ps_qual := q\<rparr>)) res"

subsection \<open>The tuples of a scan\<close>

text \<open>The tuples among the answers of a queue, or among the slots a parent has got.\<close>

fun tuples_of :: "HeapTuple option list \<Rightarrow> HeapTuple list" where
  "tuples_of [] = []"
| "tuples_of (None # xs) = tuples_of xs"
| "tuples_of (Some t # xs) = t # tuples_of xs"

text \<open>
  The tuples that the sources of the node still hold: the ones in the queues of the live
  readers and, while the leader scans locally, the rows its child has still to return.
\<close>

definition queued :: "TupleQueueReader list \<Rightarrow> HeapTuple multiset" where
  "queued rs = (\<Sum>r\<leftarrow>rs. mset (tuples_of (pending r)))"

definition tuples_left :: "World \<Rightarrow> GatherState \<Rightarrow> HeapTuple multiset" where
  "tuples_left w gs =
     queued (live gs) + (if need_to_scan_locally gs then mset (outer_rows w) else {#})"



subsection \<open>Concrete plans and environments\<close>

text \<open>
  Two workers are asked for and both start; the first queue holds the tuples 1 and 2, the
  second 3 and 4, and a second launch gives the same queues again.
\<close>

definition plan_two_workers :: Gather where
  "plan_two_workers =
     \<lparr>num_workers = 2, single_copy = False, parallelWorker_sendTuple = False,
      plan_qual = (\<lambda>_. True), plan_targetlist = (\<lambda>t. t)\<rparr>"

definition leader_globals :: globals where
  "leader_globals =
     \<lparr>enable_statistic = False, IsParallelWorker = False, IsInParallelMode = True\<rparr>"

definition world_two_workers :: World where
  "world_two_workers =
     \<lparr>InterruptPending = False, outer_rows = [], outer_all = [],
      launches = [[[Some 1, Some 2], [Some 3, Some 4]], [[Some 1, Some 2], [Some 3, Some 4]]],
      clock = (\<lambda>_. 0), clock_reads = 0, trace = []\<rparr>"

text \<open>
  Two nodes in the middle of a scan, the leader not scanning locally. In the first both
  queues are empty for two rounds before a tuple arrives; in the second the first queue is
  empty and the second holds two tuples.
\<close>

definition node_two_idle_readers :: GatherState where
  "node_two_idle_readers =
     (ExecInitGather plan_two_workers)
       \<lparr>initialized := True, need_to_scan_locally := False, pei := Some \<lparr>nworkers = 2\<rparr>,
        nworkers_launched := 2, nreaders := 2, nextreader := 0,
        reader := Some [\<lparr>rid = 0, pending = [None, None, Some 7]\<rparr>,
                        \<lparr>rid = 1, pending = [None, None]\<rparr>]\<rparr>"

definition node_second_reader_busy :: GatherState where
  "node_second_reader_busy =
     (ExecInitGather plan_two_workers)
       \<lparr>initialized := True, need_to_scan_locally := False, pei := Some \<lparr>nworkers = 2\<rparr>,
        nworkers_launched := 2, nreaders := 2, nextreader := 0,
        reader := Some [\<lparr>rid = 0, pending = [None]\<rparr>,
                        \<lparr>rid = 1, pending = [Some 5, Some 6]\<rparr>]\<rparr>"

text \<open>
  A plan that asks for no worker, over a child with no tuple; and a node whose cursor is on
  the second of two readers, that one done.
\<close>

definition plan_no_workers :: Gather where
  "plan_no_workers =
     \<lparr>num_workers = 0, single_copy = False, parallelWorker_sendTuple = False,
      plan_qual = (\<lambda>_. True), plan_targetlist = (\<lambda>t. t)\<rparr>"

definition world_empty_child :: World where
  "world_empty_child =
     \<lparr>InterruptPending = False, outer_rows = [], outer_all = [], launches = [],
      clock = (\<lambda>_. 0), clock_reads = 0, trace = []\<rparr>"

definition node_last_reader_done :: GatherState where
  "node_last_reader_done =
     (ExecInitGather plan_two_workers)
       \<lparr>initialized := True, need_to_scan_locally := False, pei := Some \<lparr>nworkers = 2\<rparr>,
        nworkers_launched := 2, nreaders := 2, nextreader := 1,
        reader := Some [\<lparr>rid = 0, pending = [Some 9]\<rparr>, \<lparr>rid = 1, pending = []\<rparr>]\<rparr>"

text \<open>
  A single-copy plan whose one worker starts, over a child that would give the tuples 8 and
  9 to the leader; and a plan with \<open>parallelWorker_sendTuple\<close> set for which no worker
  starts, over a child with the tuples 1, 2 and 3.
\<close>

definition plan_single_copy :: Gather where
  "plan_single_copy =
     \<lparr>num_workers = 1, single_copy = True, parallelWorker_sendTuple = False,
      plan_qual = (\<lambda>_. True), plan_targetlist = (\<lambda>t. t)\<rparr>"

definition world_one_worker :: World where
  "world_one_worker =
     \<lparr>InterruptPending = False, outer_rows = [8, 9], outer_all = [8, 9],
      launches = [[[Some 1, None, Some 2]]],
      clock = (\<lambda>_. 0), clock_reads = 0, trace = []\<rparr>"

definition plan_parallel_send :: Gather where
  "plan_parallel_send =
     \<lparr>num_workers = 2, single_copy = False, parallelWorker_sendTuple = True,
      plan_qual = (\<lambda>_. True), plan_targetlist = (\<lambda>t. t)\<rparr>"

definition world_no_launch :: World where
  "world_no_launch =
     \<lparr>InterruptPending = False, outer_rows = [1, 2, 3], outer_all = [1, 2, 3],
      launches = [[]],
      clock = (\<lambda>_. 0), clock_reads = 0, trace = []\<rparr>"

text \<open>A plan whose qual rejects every tuple and whose target list adds 100.\<close>

definition plan_rejecting_qual :: Gather where
  "plan_rejecting_qual =
     \<lparr>num_workers = 2, single_copy = False, parallelWorker_sendTuple = False,
      plan_qual = (\<lambda>_. False), plan_targetlist = (\<lambda>t. t + 100)\<rparr>"

text \<open>
  Statistics are on, and the clock reads 100, 105, 200 and then 207: one worker with two
  tuples in its queue; and no worker, the child giving one tuple to the leader.
\<close>

definition stat_globals :: globals where
  "stat_globals =
     \<lparr>enable_statistic = True, IsParallelWorker = False, IsInParallelMode = True\<rparr>"

definition world_timed :: World where
  "world_timed =
     \<lparr>InterruptPending = False, outer_rows = [], outer_all = [],
      launches = [[[Some 1, Some 2]]],
      clock = (\<lambda>i. if i = 0 then 100 else if i = 1 then 105 else if i = 2 then 200 else 207), clock_reads = 0, trace = []\<rparr>"

definition world_timed_leader :: World where
  "world_timed_leader =
     \<lparr>InterruptPending = False, outer_rows = [1], outer_all = [1],
      launches = [[]],
      clock = (\<lambda>i. if i = 0 then 100 else if i = 1 then 105 else if i = 2 then 200 else 207), clock_reads = 0, trace = []\<rparr>"


section \<open>Lemmas\<close>

subsection \<open>Shutting the workers down\<close>

lemma ExecShutdownGatherWorkers_node:
  "ExecShutdownGatherWorkers w node = (w', node') \<Longrightarrow> node' = node\<lparr>reader := None\<rparr>"
  by (auto simp: ExecShutdownGatherWorkers_def Let_def split: option.splits if_splits)

subsection \<open>The cursor and the ring of live readers\<close>

lemma ring_of_Cons: "p < length l \<Longrightarrow> ring_of p l = l ! p # (drop (Suc p) l @ take p l)"
  by (simp add: ring_of_def Cons_nth_drop_Suc)

lemma tl_ring_of: "p < length l \<Longrightarrow> tl (ring_of p l) = drop (Suc p) l @ take p l"
  by (simp add: ring_of_Cons)

lemma ring_of_remove:
  assumes "p < length l"
  shows "ring_of (if length l - 1 \<le> p then 0 else p) (take p l @ drop (Suc p) l) = tl (ring_of p l)"
proof (cases "length l - 1 \<le> p")
  case True
  with assms have "Suc p = length l" by simp
  then have "drop (Suc p) l = []" by simp
  then show ?thesis using True assms by (simp add: tl_ring_of) (simp add: ring_of_def)
next
  case False
  have "length (take p l) = p" using assms by simp
  then have "ring_of p (take p l @ drop (Suc p) l) = drop (Suc p) l @ take p l"
    by (simp add: ring_of_def)
  then show ?thesis using False assms by (simp add: tl_ring_of)
qed

lemma ring_of_advance:
  assumes "p < length l"
  shows "ring_of (if length l \<le> p + 1 then 0 else p + 1) l = tl (ring_of p l) @ [l ! p]"
proof (cases "length l \<le> p + 1")
  case True
  with assms have "Suc p = length l" by simp
  then have "take (Suc p) l = l" "drop (Suc p) l = []" by simp_all
  then have "l = take p l @ [l ! p]" using assms by (simp add: take_Suc_conv_app_nth)
  then have "ring_of 0 l = take p l @ [l ! p]" by (simp add: ring_of_def)
  then show ?thesis using True assms \<open>drop (Suc p) l = []\<close> by (simp add: tl_ring_of)
next
  case False
  then have "ring_of (Suc p) l = drop (Suc p) l @ take p l @ [l ! p]"
    using assms by (simp add: ring_of_def take_Suc_conv_app_nth)
  then show ?thesis using False assms by (simp add: tl_ring_of)
qed

lemma set_ring_of: "set (ring_of p l) = set l"
proof -
  have "set (ring_of p l) = set (take p l) \<union> set (drop p l)" by (auto simp: ring_of_def)
  also have "\<dots> = set (take p l @ drop p l)" by (simp only: set_append)
  also have "\<dots> = set l" by (simp only: append_take_drop_id)
  finally show ?thesis .
qed

lemma distinct_ring_of: "distinct (ring_of p l) = distinct l"
proof -
  have "distinct (ring_of p l) = distinct (take p l @ drop p l)"
    by (auto simp only: ring_of_def distinct_append)
  also have "\<dots> = distinct l" by (simp only: append_take_drop_id)
  finally show ?thesis .
qed

lemma length_ring_of: "length (ring_of p l) = length l"
  by (simp add: ring_of_def)


lemma cursor_in_rangeD:
  assumes "cursor_in_range gs"
  obtains arr where "reader gs = Some arr" "nextreader gs < nreaders gs"
    "nreaders gs \<le> length arr" "nextreader gs < length arr"
    "distinct (map rid (live gs))" "length (live gs) = nreaders gs"
    "live gs ! nextreader gs = arr ! nextreader gs"
  using assms by (auto simp: cursor_in_range_def live_def split: option.splits)

lemma cursor_in_rangeI:
  assumes "reader gs = Some arr" "nextreader gs < nreaders gs" "nreaders gs \<le> length arr"
    "distinct (map rid (live gs))"
  shows "cursor_in_range gs"
  using assms by (auto simp: cursor_in_range_def live_def)

lemma distinct_remove_nth:
  assumes "distinct (map f l)"
  shows "distinct (map f (take p l @ drop (Suc p) l))"
proof -
  have "distinct (map f (take p l @ drop p l))" using assms by (simp only: append_take_drop_id)
  then have d: "distinct (map f (take p l)) \<and> distinct (map f (drop p l)) \<and>
      set (map f (take p l)) \<inter> set (map f (drop p l)) = {}"
    by (simp only: map_append distinct_append)
  have e: "map f (drop (Suc p) l) = drop 1 (map f (drop p l))"
    by (simp add: drop_map)
  have sub: "set (map f (drop (Suc p) l)) \<subseteq> set (map f (drop p l))"
    unfolding e by (rule set_drop_subset)
  have "distinct (map f (drop (Suc p) l))"
    unfolding e using d by (intro distinct_drop) blast
  with d sub show ?thesis unfolding map_append distinct_append by blast
qed

lemma map_rid_update:
  assumes "p < length l" "rid x = rid (l ! p)"
  shows "map rid (l[p := x]) = map rid l"
  using assms by (simp add: map_update list_update_same_conv)

text \<open>The state after a turn that removed a reader, and after a turn that found nothing.\<close>

lemma done_more_state:
  assumes "cursor_in_range gs" "reader gs = Some arr" "1 < nreaders gs"
  defines "gs' \<equiv> gs\<lparr>nreaders := nreaders gs - 1,
               reader := Some (memmove arr (nextreader gs) (nextreader gs + 1)
                                 (nreaders gs - 1 - nextreader gs)),
               nextreader := (if nextreader gs \<ge> nreaders gs - 1 then 0 else nextreader gs)\<rparr>"
  shows "cursor_in_range gs'" "cursor_ring gs' = tl (cursor_ring gs)"
    "live gs' = take (nextreader gs) (live gs) @ drop (Suc (nextreader gs)) (live gs)"
proof -
  from assms(1) obtain a where a: "reader gs = Some a" "nextreader gs < nreaders gs"
    "nreaders gs \<le> length a" "nextreader gs < length a"
    "distinct (map rid (live gs))" "length (live gs) = nreaders gs"
    by (rule cursor_in_rangeD)
  with assms(2) have [simp]: "a = arr" by simp
  show l: "live gs' = take (nextreader gs) (live gs) @ drop (Suc (nextreader gs)) (live gs)"
    unfolding gs'_def using live_done_more[OF assms(2) a(2)] a(4) by simp
  have len: "length (memmove arr (nextreader gs) (nextreader gs + 1)
                (nreaders gs - 1 - nextreader gs)) = length arr"
    using length_memmove[OF a(2)] a(3) by simp
  have "distinct (map rid (live gs'))" using a(5) l by (simp only: distinct_remove_nth)
  moreover have "reader gs' = Some (memmove arr (nextreader gs) (nextreader gs + 1)
                                 (nreaders gs - 1 - nextreader gs))"
    by (simp add: gs'_def)
  moreover have "nextreader gs' < nreaders gs'" using assms(3) a(2) by (simp add: gs'_def)
  moreover have "nreaders gs' \<le> length arr" using a(3) by (simp add: gs'_def)
  ultimately show "cursor_in_range gs'" using len by (auto intro: cursor_in_rangeI)
  have "cursor_ring gs' =
          ring_of (if length (map rid (live gs)) - 1 \<le> nextreader gs then 0 else nextreader gs)
            (take (nextreader gs) (map rid (live gs)) @ drop (Suc (nextreader gs)) (map rid (live gs)))"
    using l a(6) by (simp add: cursor_ring_def gs'_def take_map drop_map)
  also have "\<dots> = tl (ring_of (nextreader gs) (map rid (live gs)))"
    using a(2,6) by (intro ring_of_remove) simp
  finally show "cursor_ring gs' = tl (cursor_ring gs)" by (simp add: cursor_ring_def)
qed

lemma empty_state:
  fixes rest :: "HeapTuple option list"
  assumes "cursor_in_range gs" "reader gs = Some arr"
  defines "gs' \<equiv> gs\<lparr>reader := Some (arr[nextreader gs := (arr ! nextreader gs)\<lparr>pending := rest\<rparr>]),
                       nextreader := (if nextreader gs + 1 \<ge> nreaders gs then 0 else nextreader gs + 1)\<rparr>"
  shows "cursor_in_range gs'" "cursor_ring gs' = tl (cursor_ring gs) @ [rid (arr ! nextreader gs)]"
    "map rid (live gs') = map rid (live gs)" "nreaders gs' = nreaders gs"
proof -
  from assms(1) obtain a where a: "reader gs = Some a" "nextreader gs < nreaders gs"
    "nreaders gs \<le> length a" "nextreader gs < length a"
    "distinct (map rid (live gs))" "length (live gs) = nreaders gs"
    "live gs ! nextreader gs = a ! nextreader gs"
    by (rule cursor_in_rangeD)
  with assms(2) have [simp]: "a = arr" by simp
  have l: "live gs' = (live gs)[nextreader gs := (arr ! nextreader gs)\<lparr>pending := rest\<rparr>]"
    unfolding gs'_def using live_update(1)[OF assms(2)] by simp
  show m: "map rid (live gs') = map rid (live gs)"
    unfolding l using a(2,6,7) by (intro map_rid_update) simp_all
  show n: "nreaders gs' = nreaders gs" by (simp add: gs'_def)
  have "nextreader gs' < nreaders gs'" using a(2) by (simp add: gs'_def)
  moreover have "reader gs' = Some (arr[nextreader gs := (arr ! nextreader gs)\<lparr>pending := rest\<rparr>])"
    by (simp add: gs'_def)
  moreover have "distinct (map rid (live gs'))" using m a(5) by simp
  ultimately show "cursor_in_range gs'" using a(3) n by (auto intro: cursor_in_rangeI)
  have "cursor_ring gs' =
          ring_of (if length (map rid (live gs)) \<le> nextreader gs + 1 then 0 else nextreader gs + 1)
            (map rid (live gs))"
    using m a(6) by (simp add: cursor_ring_def gs'_def)
  also have "\<dots> = tl (ring_of (nextreader gs) (map rid (live gs))) @ [map rid (live gs) ! nextreader gs]"
    using a(2,6) by (intro ring_of_advance) simp
  finally show "cursor_ring gs' = tl (cursor_ring gs) @ [rid (arr ! nextreader gs)]"
    using a(2,6,7) by (simp add: cursor_ring_def)
qed

lemma tuple_state:
  fixes rest :: "HeapTuple option list"
  assumes "cursor_in_range gs" "reader gs = Some arr"
  defines "gs' \<equiv> gs\<lparr>reader := Some (arr[nextreader gs := (arr ! nextreader gs)\<lparr>pending := rest\<rparr>])\<rparr>"
  shows "cursor_in_range gs'" "cursor_ring gs' = cursor_ring gs"
proof -
  from assms(1) obtain a where a: "reader gs = Some a" "nextreader gs < nreaders gs"
    "nreaders gs \<le> length a" "nextreader gs < length a"
    "distinct (map rid (live gs))" "length (live gs) = nreaders gs"
    "live gs ! nextreader gs = a ! nextreader gs"
    by (rule cursor_in_rangeD)
  with assms(2) have [simp]: "a = arr" by simp
  have l: "live gs' = (live gs)[nextreader gs := (arr ! nextreader gs)\<lparr>pending := rest\<rparr>]"
    unfolding gs'_def using live_update(2)[OF assms(2)] by simp
  have m: "map rid (live gs') = map rid (live gs)"
    unfolding l using a(2,6,7) by (intro map_rid_update) simp_all
  have "reader gs' = Some (arr[nextreader gs := (arr ! nextreader gs)\<lparr>pending := rest\<rparr>])"
    by (simp add: gs'_def)
  moreover have "nextreader gs' < nreaders gs'" using a(2) by (simp add: gs'_def)
  moreover have "distinct (map rid (live gs'))" using m a(5) by simp
  ultimately show "cursor_in_range gs'" using a(3) by (auto intro: cursor_in_rangeI simp: gs'_def)
  show "cursor_ring gs' = cursor_ring gs" using m by (simp add: cursor_ring_def gs'_def)
qed

lemma cursor_ring_Cons:
  assumes "cursor_in_range gs" "reader gs = Some arr"
  shows "cursor_ring gs = rid (arr ! nextreader gs) # tl (cursor_ring gs)"
    "length (cursor_ring gs) = nreaders gs" "distinct (cursor_ring gs)"
    "set (cursor_ring gs) = rid ` set (live gs)"
proof -
  from assms(1) obtain a where a: "reader gs = Some a" "nextreader gs < nreaders gs"
    "nreaders gs \<le> length a" "nextreader gs < length a"
    "distinct (map rid (live gs))" "length (live gs) = nreaders gs"
    "live gs ! nextreader gs = a ! nextreader gs"
    by (rule cursor_in_rangeD)
  with assms(2) have [simp]: "a = arr" by simp
  have "nextreader gs < length (map rid (live gs))" using a(2,6) by simp
  from ring_of_Cons[OF this] a(2,6,7)
  show "cursor_ring gs = rid (arr ! nextreader gs) # tl (cursor_ring gs)"
    by (simp add: cursor_ring_def)
  show "length (cursor_ring gs) = nreaders gs" using a(6) by (simp add: cursor_ring_def length_ring_of)
  show "distinct (cursor_ring gs)" using a(5) by (simp add: cursor_ring_def distinct_ring_of)
  show "set (cursor_ring gs) = rid ` set (live gs)" by (simp add: cursor_ring_def set_ring_of)
qed

subsection \<open>The polling loop\<close>

lemma turn_Interrupted:
  "InterruptPending w \<Longrightarrow> gather_readnext_turn w gs nv = Fail Interrupted"
  by (simp add: gather_readnext_turn_def)

lemma loop_not_interrupted:
  assumes "gather_readnext_loop w gs nv = Inr x"
  shows "\<not> InterruptPending w"
  using assms turn_Interrupted[of w gs nv]
  by (auto simp: gather_readnext_loop.simps[of w gs nv])

lemma drop_tl_le:
  "set (drop (n - 1 - k) (tl R)) \<subseteq> set (drop (n - k) R)" if "length R = n"
proof (cases "k < n")
  case True
  then have "n - k = Suc (n - 1 - k)" by simp
  then show ?thesis by (simp add: drop_Suc)
next
  case False
  then show ?thesis by (cases R) auto
qed

lemma loop_fair:
  "gather_readnext_loop w gs nv = Inr (r, w', gs') \<Longrightarrow> cursor_in_range gs \<Longrightarrow>
   set (drop (nreaders gs - nv) (cursor_ring gs)) \<subseteq> P \<Longrightarrow>
   \<exists>es. trace w' = trace w @ es \<and> polled_between_waits (set (cursor_ring gs)) P es"
proof (induction w gs nv arbitrary: P rule: gather_readnext_loop.induct)
  case (1 w gs nv)
  note loop = "1.prems"(1) and range = "1.prems"(2) and polled = "1.prems"(3)
  from range obtain arr where a: "reader gs = Some arr" "nextreader gs < nreaders gs"
    "nreaders gs \<le> length arr" "nextreader gs < length arr"
    by (rule cursor_in_rangeD)
  note ring = cursor_ring_Cons[OF range a(1)]
  let ?i = "rid (arr ! nextreader gs)"
  have ni: "\<not> InterruptPending w" using loop by (rule loop_not_interrupted)
  from ni a(1,2,4) show ?case
  proof (cases rule: turn_cases[where nv = nv])
    case done_last
    with loop have "trace w' = trace w @ [EvTupleQueueReaderNext ?i None True,
        EvDestroyTupleQueueReader ?i] \<or>
      trace w' = trace w @ [EvTupleQueueReaderNext ?i None True,
        EvDestroyTupleQueueReader ?i, EvExecParallelFinish]"
      by (cases "pei gs = None")
        (auto simp: gather_readnext_loop.simps[of w gs nv] log_event_def Let_def)
    then show ?thesis by auto
  next
    case done_more
    let ?gs1 = "gs\<lparr>nreaders := nreaders gs - 1,
               reader := Some (memmove arr (nextreader gs) (nextreader gs + 1)
                                 (nreaders gs - 1 - nextreader gs)),
               nextreader := (if nextreader gs \<ge> nreaders gs - 1 then 0 else nextreader gs)\<rparr>"
    let ?w1 = "log_event (EvDestroyTupleQueueReader ?i)
              (log_event (EvTupleQueueReaderNext ?i None True) w)"
    note st = done_more_state[OF range a(1) done_more(2)]
    from loop done_more(3) have l1: "gather_readnext_loop ?w1 ?gs1 nv = Inr (r, w', gs')"
      by (simp add: gather_readnext_loop.simps[of w gs nv])
    have "set (drop (nreaders ?gs1 - nv) (cursor_ring ?gs1)) \<subseteq> set (drop (nreaders gs - nv) (cursor_ring gs))"
      using drop_tl_le[OF ring(2), of nv] st(2) by simp
    with polled have p1: "set (drop (nreaders ?gs1 - nv) (cursor_ring ?gs1)) \<subseteq> insert ?i P" by blast
    from "1.IH"[OF done_more(3) l1 st(1) p1] obtain es where
      es: "trace w' = trace ?w1 @ es" "polled_between_waits (set (cursor_ring ?gs1)) (insert ?i P) es"
      by blast
    have "set (cursor_ring ?gs1) = set (cursor_ring gs) - {?i}"
      using ring(1,3) st(2) by (metis Diff_insert_absorb distinct.simps(2) list.simps(15))
    with es show ?thesis by (auto simp: log_event_def)
  next
    case (tuple t rest)
    with loop have "trace w' = trace w @ [EvTupleQueueReaderNext ?i (Some t) False]"
      by (auto simp: gather_readnext_loop.simps[of w gs nv] log_event_def)
    then show ?thesis by auto
  next
    case (empty rest)
    let ?gs1 = "gs\<lparr>reader := Some (arr[nextreader gs := (arr ! nextreader gs)\<lparr>pending := rest\<rparr>]),
                       nextreader := (if nextreader gs + 1 \<ge> nreaders gs then 0 else nextreader gs + 1)\<rparr>"
    let ?w1 = "log_event (EvTupleQueueReaderNext ?i None False) w"
    note st = empty_state[OF range a(1), of rest]
    have set1: "set (cursor_ring ?gs1) = set (cursor_ring gs)"
      using st(2) ring(1) by (metis insert_absorb2 list.simps(15) rotate1.simps(2) set_rotate1)
    show ?thesis
    proof (cases "nv + 1 \<ge> nreaders gs")
      case True
      have all: "set (cursor_ring gs) \<subseteq> insert ?i P"
      proof -
        have "nreaders gs - nv = 0 \<or> nreaders gs - nv = 1" using True by arith
        then have "set (tl (cursor_ring gs)) \<subseteq> set (drop (nreaders gs - nv) (cursor_ring gs))"
        proof
          assume "nreaders gs - nv = 0"
          then show ?thesis by (cases "cursor_ring gs") auto
        next
          assume "nreaders gs - nv = 1"
          then show ?thesis by (simp add: drop_Suc)
        qed
        with polled ring(1) show ?thesis by (metis insert_mono list.simps(15) subset_trans)
      qed
      show ?thesis
      proof (cases "need_to_scan_locally gs")
        case need: True
        with True empty(2) loop have "trace w' = trace w @ [EvTupleQueueReaderNext ?i None False]"
          by (auto simp: gather_readnext_loop.simps[of w gs nv] log_event_def Let_def)
        then show ?thesis by auto
      next
        case need: False
        with True empty(2) have t: "gather_readnext_turn w gs nv = Again (log_event EvWaitLatch ?w1) ?gs1 0"
          by (simp add: Let_def)
        with loop have l1: "gather_readnext_loop (log_event EvWaitLatch ?w1) ?gs1 0 = Inr (r, w', gs')"
          by (simp add: gather_readnext_loop.simps[of w gs nv])
        have p1: "set (drop (nreaders ?gs1 - 0) (cursor_ring ?gs1)) \<subseteq> {}"
          using st(2,4) ring(2) a(2) by simp
        from "1.IH"[OF t l1 st(1) p1] obtain es where
          es: "trace w' = trace (log_event EvWaitLatch ?w1) @ es"
            "polled_between_waits (set (cursor_ring ?gs1)) {} es"
          by blast
        with set1 all show ?thesis by (auto simp: log_event_def)
      qed
    next
      case False
      with empty(2) have t: "gather_readnext_turn w gs nv = Again ?w1 ?gs1 (nv + 1)"
        by (simp add: Let_def)
      with loop have l1: "gather_readnext_loop ?w1 ?gs1 (nv + 1) = Inr (r, w', gs')"
        by (simp add: gather_readnext_loop.simps[of w gs nv])
      have "drop (nreaders gs - (nv + 1)) (tl (cursor_ring gs) @ [?i])
            = drop (nreaders gs - nv) (cursor_ring gs) @ [?i]"
      proof -
        from False have "nreaders gs - nv = Suc (nreaders gs - (nv + 1))" by simp
        then show ?thesis using ring(2) False by (simp add: drop_Suc)
      qed
      with polled st(2,4) have p1: "set (drop (nreaders ?gs1 - (nv + 1)) (cursor_ring ?gs1)) \<subseteq> insert ?i P"
        by auto
      from "1.IH"[OF t l1 st(1) p1] obtain es where
        es: "trace w' = trace ?w1 @ es"
          "polled_between_waits (set (cursor_ring ?gs1)) (insert ?i P) es"
        by blast
      with set1 show ?thesis by (auto simp: log_event_def)
    qed
  qed
qed


text \<open>From a state with the cursor in range a turn fails only on a pending interrupt.\<close>

lemma turn_range:
  assumes "cursor_in_range gs" "\<not> InterruptPending w"
  shows "case gather_readnext_turn w gs nv of
           Fail e \<Rightarrow> False
         | Exit r w' gs' \<Rightarrow>
             \<not> InterruptPending w' \<and>
             (case r of Some t \<Rightarrow> cursor_in_range gs'
              | None \<Rightarrow> reader gs' = None \<or> (cursor_in_range gs' \<and> need_to_scan_locally gs))
         | Again w' gs' nv' \<Rightarrow> \<not> InterruptPending w' \<and> cursor_in_range gs'"
proof -
  from assms(1) obtain arr where a: "reader gs = Some arr" "nextreader gs < nreaders gs"
    "nreaders gs \<le> length arr" "nextreader gs < length arr"
    by (rule cursor_in_rangeD)
  from assms(2) a(1,2,4) show ?thesis
  proof (cases rule: turn_cases[where nv = nv])
    case done_last
    then show ?thesis using assms(2) by (simp add: Let_def log_event_def)
  next
    case done_more
    then show ?thesis using assms(2) done_more_state(1)[OF assms(1) a(1) done_more(2)]
      by (simp add: log_event_def)
  next
    case (tuple t rest)
    then show ?thesis using assms(2) tuple_state(1)[OF assms(1) a(1), of rest]
      by (simp add: log_event_def)
  next
    case (empty rest)
    then show ?thesis using assms(2) empty_state(1)[OF assms(1) a(1), of rest]
      by (simp add: log_event_def Let_def)
  qed
qed

lemma loop_range:
  assumes "cursor_in_range gs" "\<not> InterruptPending w"
  shows "\<exists>r w' gs'. gather_readnext_loop w gs nv = Inr (r, w', gs') \<and> \<not> InterruptPending w' \<and>
           (case r of Some t \<Rightarrow> cursor_in_range gs'
            | None \<Rightarrow> reader gs' = None \<or> (cursor_in_range gs' \<and> need_to_scan_locally gs))"
  using assms
proof (induction w gs nv rule: gather_readnext_loop.induct)
  case (1 w gs nv)
  note t = turn_range[OF "1.prems", of nv]
  show ?case
  proof (cases "gather_readnext_turn w gs nv")
    case (Fail e)
    with t show ?thesis by simp
  next
    case (Exit r w1 gs1)
    with t show ?thesis by (simp add: gather_readnext_loop.simps[of w gs nv])
  next
    case (Again w1 gs1 nv1)
    with t have "cursor_in_range gs1" "\<not> InterruptPending w1" by simp_all
    from "1.IH"[OF Again this] obtain r w' gs' where
      r: "gather_readnext_loop w1 gs1 nv1 = Inr (r, w', gs')" "\<not> InterruptPending w'"
       "case r of Some t \<Rightarrow> cursor_in_range gs'
        | None \<Rightarrow> reader gs' = None \<or> (cursor_in_range gs' \<and> need_to_scan_locally gs1)"
      by blast
    from turn_frame[OF disjI1[OF Again]] have "need_to_scan_locally gs1 = need_to_scan_locally gs"
      by (simp add: node_frame_def)
    with r Again show ?thesis
      by (auto simp: gather_readnext_loop.simps[of w gs nv] split: option.splits)
  qed
qed

text \<open>A tuple that the loop returns was read, in its last turn, from the reader under the cursor.\<close>

lemma loop_tuple_cursor:
  "gather_readnext_loop w gs nv = Inr (Some t, w', gs') \<Longrightarrow> cursor_in_range gs \<Longrightarrow>
   \<exists>arr' es. reader gs' = Some arr' \<and> nextreader gs' < nreaders gs' \<and>
     trace w' = trace w @ es @ [EvTupleQueueReaderNext (rid (arr' ! nextreader gs')) (Some t) False]"
proof (induction w gs nv rule: gather_readnext_loop.induct)
  case (1 w gs nv)
  note loop = "1.prems"(1) and range = "1.prems"(2)
  from range obtain arr where a: "reader gs = Some arr" "nextreader gs < nreaders gs"
    "nreaders gs \<le> length arr" "nextreader gs < length arr"
    by (rule cursor_in_rangeD)
  have ni: "\<not> InterruptPending w" using loop by (rule loop_not_interrupted)
  note t = turn_range[OF range ni, of nv]
  show ?case
  proof (cases "gather_readnext_turn w gs nv")
    case (Fail e)
    with t show ?thesis by simp
  next
    case (Again w1 gs1 nv1)
    with loop have l1: "gather_readnext_loop w1 gs1 nv1 = Inr (Some t, w', gs')"
      by (simp add: gather_readnext_loop.simps[of w gs nv])
    from Again t have "cursor_in_range gs1" by simp
    from "1.IH"[OF Again l1 this] obtain arr' es where
      e: "reader gs' = Some arr'" "nextreader gs' < nreaders gs'"
        "trace w' = trace w1 @ es @ [EvTupleQueueReaderNext (rid (arr' ! nextreader gs')) (Some t) False]"
      by blast
    have "\<exists>es1. trace w1 = trace w @ es1"
      using ni a(1,2,4)
      by (cases rule: turn_cases[where nv = nv])
        (use Again in \<open>auto simp: log_event_def Let_def split: if_splits\<close>)
    then obtain es1 where "trace w1 = trace w @ es1" ..
    with e have "trace w' = trace w @ (es1 @ es) @ [EvTupleQueueReaderNext (rid (arr' ! nextreader gs')) (Some t) False]"
      by simp
    with e(1,2) show ?thesis by blast
  next
    case (Exit r w1 gs1)
    with loop have eq: "r = Some t" "w1 = w'" "gs1 = gs'"
      by (simp_all add: gather_readnext_loop.simps[of w gs nv])
    from ni a(1,2,4) show ?thesis
    proof (cases rule: turn_cases[where nv = nv])
      case (tuple t' rest)
      with Exit eq a(2,4) have "reader gs' = Some (arr[nextreader gs := (arr ! nextreader gs)\<lparr>pending := rest\<rparr>])"
        "nextreader gs' = nextreader gs" "nreaders gs' = nreaders gs" "t' = t"
        "trace w' = trace w @ [] @ [EvTupleQueueReaderNext (rid (arr ! nextreader gs)) (Some t) False]"
        by (auto simp: log_event_def)
      moreover have "rid ((arr[nextreader gs := (arr ! nextreader gs)\<lparr>pending := rest\<rparr>]) ! nextreader gs)
            = rid (arr ! nextreader gs)"
        using a(4) by simp
      ultimately show ?thesis using a(2) by (metis (no_types))
    qed (use Exit eq in \<open>auto simp: Let_def split: if_splits\<close>)
  qed
qed


subsection \<open>The frame of a scan\<close>

lemma scan_frame_trans:
  "scan_frame w gs w1 gs1 \<Longrightarrow> scan_frame w1 gs1 w' gs' \<Longrightarrow> scan_frame w gs w' gs'"
  by (auto simp: scan_frame_def)

lemma scan_step_trans:
  assumes "scan_step None w gs w1 gs1" "scan_step r w1 gs1 w' gs'"
  shows "scan_step r w gs w' gs'"
proof -
  from assms(1) obtain es1 where 1: "trace w1 = trace w @ es1"
    "\<forall>e\<in>set es1. (is_local_pull e \<longrightarrow> need_to_scan_locally gs) \<and> gets_tuple e = None"
    by (auto simp: scan_step_def)
  from assms(2) obtain es2 where 2: "trace w' = trace w1 @ es2"
    "\<forall>e\<in>set es2. (is_local_pull e \<longrightarrow> need_to_scan_locally gs1) \<and>
                  (gets_tuple e = None \<or> gets_tuple e = r)"
    by (auto simp: scan_step_def)
  from assms(1) have n: "need_to_scan_locally gs1 \<longrightarrow> need_to_scan_locally gs"
    by (simp add: scan_step_def scan_frame_def)
  have "trace w' = trace w @ (es1 @ es2)" using 1 2 by simp
  moreover have "\<forall>e\<in>set (es1 @ es2). (is_local_pull e \<longrightarrow> need_to_scan_locally gs) \<and>
                  (gets_tuple e = None \<or> gets_tuple e = r)"
    using 1(2) 2(2) n by auto
  ultimately have "\<exists>es. trace w' = trace w @ es \<and>
        (\<forall>e\<in>set es. (is_local_pull e \<longrightarrow> need_to_scan_locally gs) \<and>
                     (gets_tuple e = None \<or> gets_tuple e = r))"
    by blast
  moreover from assms have "scan_frame w gs w' gs'"
    by (auto simp: scan_step_def intro: scan_frame_trans)
  ultimately show ?thesis by (simp add: scan_step_def)
qed

lemma turn_scan_step:
  assumes "gather_readnext_turn w gs nv = Again w' gs' nv' \<and> r = None \<or>
           gather_readnext_turn w gs nv = Exit r w' gs'"
  shows "scan_step r w gs w' gs'"
proof -
  from assms have f: "node_frame gs gs' \<and> world_frame w w'" using turn_frame by blast
  from assms obtain arr where pre: "\<not> InterruptPending w" "reader gs = Some arr"
    "nextreader gs < nreaders gs" "nextreader gs < length arr"
    by (auto elim: turn_Again_pre turn_Exit_pre)
  from pre have "\<exists>es. trace w' = trace w @ es \<and>
        (\<forall>e\<in>set es. \<not> is_local_pull e \<and> (gets_tuple e = None \<or> gets_tuple e = r))"
  proof (cases rule: turn_cases[where nv = nv])
    case done_last
    with assms show ?thesis
      by (cases "pei gs = None")
        (auto simp: log_event_def Let_def gets_tuple_def is_local_pull_def)
  next
    case done_more
    with assms show ?thesis
      by (auto simp: log_event_def gets_tuple_def is_local_pull_def)
  next
    case (tuple t rest)
    with assms show ?thesis
      by (auto simp: log_event_def gets_tuple_def is_local_pull_def)
  next
    case (empty rest)
    with assms show ?thesis
      by (auto simp: log_event_def Let_def gets_tuple_def is_local_pull_def split: if_splits)
  qed
  with f show ?thesis unfolding scan_step_def scan_frame_def node_frame_def world_frame_def by auto
qed

lemmas turn_Exit_scan_step = turn_scan_step[OF disjI2]
lemmas turn_Again_scan_step = turn_scan_step[OF disjI1, OF conjI, OF _ refl]

lemma loop_scan_step:
  "gather_readnext_loop w gs nv = Inr (r, w', gs') \<Longrightarrow> scan_step r w gs w' gs'"
proof (induction w gs nv rule: gather_readnext_loop.induct)
  case (1 w gs nv)
  show ?case
  proof (cases "gather_readnext_turn w gs nv")
    case (Fail e)
    with "1.prems" show ?thesis by (simp add: gather_readnext_loop.simps[of w gs nv])
  next
    case (Exit t w1 gs1)
    with "1.prems" have "t = r" "w1 = w'" "gs1 = gs'"
      by (simp_all add: gather_readnext_loop.simps[of w gs nv])
    with Exit show ?thesis by (simp add: turn_Exit_scan_step)
  next
    case (Again w1 gs1 nv1)
    with "1.prems" have "gather_readnext_loop w1 gs1 nv1 = Inr (r, w', gs')"
      by (simp add: gather_readnext_loop.simps[of w gs nv])
    from "1.IH"[OF Again this] have "scan_step r w1 gs1 w' gs'" .
    moreover from Again have "scan_step None w gs w1 gs1" by (rule turn_Again_scan_step)
    ultimately show ?thesis by (rule scan_step_trans[rotated])
  qed
qed

lemma scan_step_refl: "scan_step r w gs w gs"
  by (simp add: scan_step_def scan_frame_def)

lemma ExecProcNode_cases:
  obtains (none) "outer_rows w = []" "ExecProcNode w = (None, log_event (EvExecProcNode None) w)"
  | (some) t ts where "outer_rows w = t # ts"
      "ExecProcNode w = (Some t, log_event (EvExecProcNode (Some t)) (w\<lparr>outer_rows := ts\<rparr>))"
  by (cases "outer_rows w") (auto simp: ExecProcNode_def)

lemma local_scan_step:
  assumes "need_to_scan_locally gs" "ExecProcNode w = (r, w')"
  shows "scan_step r w gs w' gs" "r = None \<Longrightarrow> scan_step None w gs w' (gs\<lparr>need_to_scan_locally := False\<rparr>)"
  using assms
  by (cases w rule: ExecProcNode_cases;
      auto simp: scan_step_def scan_frame_def log_event_def gets_tuple_def is_local_pull_def)+

lemma scan_step_funnel:
  "scan_step r w gs w' gs' \<Longrightarrow> scan_step r w gs w' (gs'\<lparr>funnel_slot := x\<rparr>)"
  by (simp add: scan_step_def scan_frame_def)

lemma round_scan_step:
  assumes "gather_getnext_round w gs = Repeat w' gs' \<and> r = None \<or>
           gather_getnext_round w gs = Yield r w' gs'"
  shows "scan_step r w gs w' gs'"
proof (cases "reader gs \<noteq> None \<or> need_to_scan_locally gs")
  case False
  with assms show ?thesis by (auto simp: gather_getnext_round_def scan_step_def scan_frame_def)
next
  case True
  with assms have ni: "\<not> InterruptPending w"
    by (auto simp: gather_getnext_round_def split: if_splits)
  define res where "res = (if reader gs \<noteq> None then gather_readnext w gs else Inr (None, w, gs))"
  from assms True ni obtain r1 w1 gs1 where res: "res = Inr (r1, w1, gs1)"
    by (cases res) (auto simp: gather_getnext_round_def res_def)
  have s1: "scan_step r1 w gs w1 gs1"
    using res loop_scan_step[of w gs 0 r1 w1 gs1]
    by (auto simp: res_def gather_readnext_def scan_step_refl split: if_splits)
  show ?thesis
  proof (cases r1)
    case (Some t)
    with assms True ni res have "r = Some t" "w' = w1" "gs' = gs1\<lparr>funnel_slot := Some t\<rparr>"
      by (auto simp: gather_getnext_round_def res_def)
    with s1 Some show ?thesis by (simp add: scan_step_funnel)
  next
    case None
    show ?thesis
    proof (cases "need_to_scan_locally gs1")
      case False
      with None assms True ni res have "r = None" "w' = w1" "gs' = gs1"
        by (auto simp: gather_getnext_round_def res_def)
      with s1 None show ?thesis by simp
    next
      case need: True
      obtain r2 w2 where e: "ExecProcNode w1 = (r2, w2)" by (cases "ExecProcNode w1")
      note l = local_scan_step[OF need e]
      show ?thesis
      proof (cases r2)
        case None2: None
        with None need e assms True ni res have "r = None" "w' = w2"
          "gs' = gs1\<lparr>need_to_scan_locally := False\<rparr>"
          by (auto simp: gather_getnext_round_def res_def)
        with l(2) None2 s1 None show ?thesis by (auto intro: scan_step_trans)
      next
        case (Some t)
        with None need e assms True ni res have "r = Some t" "w' = w2" "gs' = gs1"
          by (auto simp: gather_getnext_round_def res_def)
        with l(1) Some s1 None show ?thesis by (auto intro: scan_step_trans)
      qed
    qed
  qed
qed

lemma getnext_scan_step:
  "gather_getnext w gs = Inr (r, w', gs') \<Longrightarrow> scan_step r w gs w' gs'"
proof (induction w gs rule: gather_getnext.induct)
  case (1 w gs)
  show ?case
  proof (cases "gather_getnext_round w gs")
    case (Broken e)
    with "1.prems" show ?thesis by (simp add: gather_getnext.simps[of w gs])
  next
    case (Yield t w1 gs1)
    with "1.prems" have "t = r" "w1 = w'" "gs1 = gs'"
      by (simp_all add: gather_getnext.simps[of w gs])
    with Yield show ?thesis by (simp add: round_scan_step)
  next
    case (Repeat w1 gs1)
    with "1.prems" have "gather_getnext w1 gs1 = Inr (r, w', gs')"
      by (simp add: gather_getnext.simps[of w gs])
    from "1.IH"[OF Repeat this] have "scan_step r w1 gs1 w' gs'" .
    moreover from Repeat have "scan_step None w gs w1 gs1" by (simp add: round_scan_step)
    ultimately show ?thesis by (rule scan_step_trans[rotated])
  qed
qed

subsection \<open>The invariant through a call\<close>

lemma cursor_in_range_upd [simp]:
  "cursor_in_range (gs\<lparr>funnel_slot := x\<rparr>) = cursor_in_range gs"
  "cursor_in_range (gs\<lparr>need_to_scan_locally := b\<rparr>) = cursor_in_range gs"
  "cursor_in_range (gs\<lparr>initialized := c\<rparr>) = cursor_in_range gs"
  "cursor_in_range (gs\<lparr>get_tuples := k, get_total_time := i\<rparr>) = cursor_in_range gs"
  by (simp_all add: cursor_in_range_def split: option.splits)

lemma round_range:
  assumes "reader gs = None \<or> cursor_in_range gs" "\<not> InterruptPending w"
  shows "case gather_getnext_round w gs of
           Broken e \<Rightarrow> False
         | Yield r w' gs' \<Rightarrow>
             (reader gs' = None \<or> cursor_in_range gs') \<and>
             (r = None \<longrightarrow> reader gs' = None \<and> \<not> need_to_scan_locally gs' \<and>
                             funnel_slot gs' = None)
         | Repeat w' gs' \<Rightarrow> reader gs' = None \<or> cursor_in_range gs'"
proof (cases "reader gs = None")
  case True
  then show ?thesis using assms(2)
    by (cases w rule: ExecProcNode_cases) (auto simp: gather_getnext_round_def)
next
  case False
  with assms have range: "cursor_in_range gs" by simp
  from loop_range[OF range assms(2), of 0] obtain r w1 gs1 where
    l: "gather_readnext w gs = Inr (r, w1, gs1)" "\<not> InterruptPending w1"
      "case r of Some t \<Rightarrow> cursor_in_range gs1
       | None \<Rightarrow> reader gs1 = None \<or> (cursor_in_range gs1 \<and> need_to_scan_locally gs)"
    by (auto simp: gather_readnext_def)
  from l(1) have n: "need_to_scan_locally gs1 = need_to_scan_locally gs"
    using loop_frame[of w gs 0 r w1 gs1] by (simp add: gather_readnext_def node_frame_def)
  show ?thesis
  proof (cases r)
    case (Some t)
    with l False assms(2) show ?thesis by (simp add: gather_getnext_round_def)
  next
    case None
    with l False assms(2) n show ?thesis
      by (cases w1 rule: ExecProcNode_cases) (auto simp: gather_getnext_round_def)
  qed
qed

lemma getnext_range:
  assumes "reader gs = None \<or> cursor_in_range gs" "\<not> InterruptPending w"
  shows "\<exists>r w' gs'. gather_getnext w gs = Inr (r, w', gs') \<and>
           (reader gs' = None \<or> cursor_in_range gs') \<and>
           (r = None \<longrightarrow> reader gs' = None \<and> \<not> need_to_scan_locally gs' \<and>
                           funnel_slot gs' = None)"
  using assms
proof (induction w gs rule: gather_getnext.induct)
  case (1 w gs)
  note t = round_range[OF "1.prems"]
  show ?case
  proof (cases "gather_getnext_round w gs")
    case (Broken e)
    with t show ?thesis by simp
  next
    case (Yield r w1 gs1)
    with t show ?thesis by (simp add: gather_getnext.simps[of w gs])
  next
    case (Repeat w1 gs1)
    with t have "reader gs1 = None \<or> cursor_in_range gs1" by simp
    moreover from Repeat have "scan_step None w gs w1 gs1" by (simp add: round_scan_step)
    with "1.prems"(2) have "\<not> InterruptPending w1" by (simp add: scan_step_def scan_frame_def)
    ultimately show ?thesis using "1.IH"[OF Repeat] Repeat
      by (simp add: gather_getnext.simps[of w gs])
  qed
qed

lemma created_readers_range:
  assumes "reader gs = Some (map (\<lambda>(i, q). \<lparr>rid = i, pending = q\<rparr>) (enumerate 0 queues))"
    "nreaders gs = length queues" "nextreader gs = 0" "queues \<noteq> []"
  shows "cursor_in_range gs"
proof -
  have "map rid (map (\<lambda>(i, q). \<lparr>rid = i, pending = q\<rparr>) (enumerate 0 queues))
        = [0..<length queues]"
    by (rule nth_equalityI) (simp_all add: nth_enumerate_eq)
  with assms show ?thesis by (simp add: cursor_in_range_def)
qed

lemma LaunchParallelWorkers_frame:
  assumes "LaunchParallelWorkers p w = (queues, w')"
  shows "InterruptPending w' = InterruptPending w \<and> outer_rows w' = outer_rows w \<and>
    clock w' = clock w \<and> clock_reads w' = clock_reads w \<and> outer_all w' = outer_all w"
  using assms by (auto simp: LaunchParallelWorkers_def log_event_def Let_def split: list.splits)

lemma ExecShutdownGatherWorkers_frame:
  assumes "ExecShutdownGatherWorkers w node = (w', node')"
  shows "InterruptPending w' = InterruptPending w \<and> outer_rows w' = outer_rows w \<and>
    clock w' = clock w \<and> clock_reads w' = clock_reads w \<and> outer_all w' = outer_all w \<and>
    launches w' = launches w"
  using assms
  by (auto simp: ExecShutdownGatherWorkers_def log_event_def log_events_def Let_def
      split: option.splits if_splits)

text \<open>What the first part of \<^verbatim>\<open>ExecGather\<close> leaves behind.\<close>

lemma setup_inv:
  assumes "node_inv node" "ExecGather_setup glb w node = (psend, launched, w1, node1)"
  shows "initialized node1" "reader node1 = None \<or> cursor_in_range node1"
    "InterruptPending w1 = InterruptPending w" "outer_rows w1 = outer_rows w"
    "psend \<Longrightarrow> reader node1 = None \<and> \<not> need_to_scan_locally node1"
    "ps_ProjInfo node1 = ps_ProjInfo node" "ps_plan node1 = ps_plan node"
    "initialized node \<Longrightarrow> node1 = node \<and> w1 = w \<and> \<not> psend \<and> launched = 0"
  using assms
  by (auto simp: ExecGather_setup_def node_inv_def Let_def
      log_event_def log_events_def
      split: if_splits option.splits prod.splits
      dest!: LaunchParallelWorkers_frame
      dest: ExecShutdownGatherWorkers_node ExecShutdownGatherWorkers_frame
      intro: created_readers_range)


lemma node_inv_upd [simp]:
  "node_inv (gs\<lparr>funnel_slot := x\<rparr>) = node_inv gs"
  "node_inv (gs\<lparr>get_tuples := k, get_total_time := i\<rparr>) = node_inv gs"
  by (simp_all add: node_inv_def)

lemma GetCurrentTimestamp_frame:
  assumes "GetCurrentTimestamp w = (t, w')"
  shows "InterruptPending w' = InterruptPending w \<and> outer_rows w' = outer_rows w \<and>
    trace w' = trace w \<and> launches w' = launches w \<and> outer_all w' = outer_all w \<and>
    clock w' = clock w \<and> clock_reads w' = Suc (clock_reads w) \<and> t = clock w (clock_reads w)"
  using assms by (auto simp: GetCurrentTimestamp_def)

text \<open>
  A call of \<^verbatim>\<open>ExecGather\<close> on a node that satisfies the invariant fails only on a pending
  interrupt; it keeps the invariant, and when it returns the empty slot the node is at the
  end of its scan.
\<close>

lemma ExecGather_inv:
  assumes "node_inv gs" "\<not> InterruptPending w"
  shows "\<exists>r w' gs'. ExecGather glb w gs = Inr (r, w', gs') \<and> node_inv gs' \<and> initialized gs' \<and>
           \<not> InterruptPending w' \<and> (r = None \<longrightarrow> terminal gs')"
proof -
  obtain psend launched w1 gs1 where
    su: "ExecGather_setup glb w gs = (psend, launched, w1, gs1)"
    by (cases "ExecGather_setup glb w gs") auto
  note si = setup_inv[OF assms(1) su]
  let ?gs2 = "gs1\<lparr>funnel_slot := None\<rparr>"
  show ?thesis
  proof (cases psend)
    case True
    with si(5) have "reader gs1 = None" "\<not> need_to_scan_locally gs1" by simp_all
    with True su assms(2) si(1,3) show ?thesis
      by (simp add: ExecGather_def Let_def terminal_def node_inv_def log_event_def)
  next
    case False
    obtain t0 w2 where
      ts: "(if enable_statistic glb \<and> \<not> need_to_scan_locally ?gs2
            then GetCurrentTimestamp w1 else (0, w1)) = (t0, w2)"
      by (cases "if enable_statistic glb \<and> \<not> need_to_scan_locally ?gs2
            then GetCurrentTimestamp w1 else (0, w1)") auto
    then have i2: "\<not> InterruptPending w2" using si(3) assms(2)
      by (auto split: if_splits dest: GetCurrentTimestamp_frame)
    from si(2) have "reader ?gs2 = None \<or> cursor_in_range ?gs2" by simp
    from getnext_range[OF this i2] obtain r w3 gs3 where
      g: "gather_getnext w2 ?gs2 = Inr (r, w3, gs3)"
        "reader gs3 = None \<or> cursor_in_range gs3"
        "r = None \<longrightarrow> reader gs3 = None \<and> \<not> need_to_scan_locally gs3 \<and> funnel_slot gs3 = None"
      by blast
    from getnext_scan_step[OF g(1)] si(1) i2 have
      f: "initialized gs3" "\<not> InterruptPending w3"
      by (simp_all add: scan_step_def scan_frame_def)
    show ?thesis
    proof (cases r)
      case None
      with False su assms(2) ts g f show ?thesis
        by (simp add: ExecGather_def Let_def terminal_def node_inv_def log_event_def)
    next
      case (Some slot)
      obtain e w4 where e: "GetCurrentTimestamp w3 = (e, w4)" by (cases "GetCurrentTimestamp w3")
      with f(2) have "\<not> InterruptPending w4" by (auto dest: GetCurrentTimestamp_frame)
      with Some False su assms(2) ts g f e show ?thesis
        by (simp add: ExecGather_def Let_def node_inv_def log_event_def)
    qed
  qed
qed

lemma ExecGather_Inl:
  assumes "node_inv gs" "ExecGather glb w gs = Inl e"
  shows "e = Interrupted \<and> InterruptPending w"
proof (cases "InterruptPending w")
  case True
  with assms(2) show ?thesis by (simp add: ExecGather_def)
next
  case False
  from ExecGather_inv[OF assms(1) False, of glb] assms(2) show ?thesis by auto
qed

lemma ExecReScanGather_inv:
  assumes "ExecReScanGather w gs = (w', gs')"
  shows "node_inv gs'" "\<not> initialized gs'" "reader gs' = None"
  using assms
  by (auto simp: ExecReScanGather_def Let_def node_inv_def split: prod.splits
      dest: ExecShutdownGatherWorkers_node)

lemma ExecShutdownGather_inv:
  assumes "node_inv gs" "ExecShutdownGather w gs = (w', gs')"
  shows "node_inv gs'"
  using assms
  by (auto simp: ExecShutdownGather_def Let_def node_inv_def split: prod.splits if_splits
      dest: ExecShutdownGatherWorkers_node)

text \<open>
  The states of the node that its parent can see: the node as \<^verbatim>\<open>ExecInitGather\<close> makes
  it, and what calls of \<^verbatim>\<open>ExecGather\<close>, \<^verbatim>\<open>ExecReScanGather\<close> and
  \<^verbatim>\<open>ExecShutdownGather\<close> make of it, in any environment.
\<close>

inductive reachable :: "GatherState \<Rightarrow> bool" where
  init: "reachable (ExecInitGather plan)"
| exec: "reachable gs \<Longrightarrow> ExecGather glb w gs = Inr (slot, w', gs') \<Longrightarrow> reachable gs'"
| rescan: "reachable gs \<Longrightarrow> ExecReScanGather w gs = (w', gs') \<Longrightarrow> reachable gs'"
| shutdown: "reachable gs \<Longrightarrow> ExecShutdownGather w gs = (w', gs') \<Longrightarrow> reachable gs'"

lemma reachable_inv: "reachable gs \<Longrightarrow> node_inv gs"
proof (induction rule: reachable.induct)
  case (init plan)
  show ?case by (simp add: node_inv_def ExecInitGather_def)
next
  case (exec gs glb w slot w' gs')
  have "\<not> InterruptPending w" using exec.hyps(2) by (auto simp: ExecGather_def split: if_splits)
  from ExecGather_inv[OF exec.IH this, of glb] exec.hyps(2) show ?case by auto
next
  case (rescan gs w w' gs')
  then show ?case by (simp add: ExecReScanGather_inv)
next
  case (shutdown gs w w' gs')
  then show ?case by (simp add: ExecShutdownGather_inv)
qed

subsection \<open>The log of a call\<close>

lemma local_pulls_append [simp]: "local_pulls (a @ b) = local_pulls a + local_pulls b"
  by (simp add: local_pulls_def)

lemma local_pulls_simps [simp]:
  "local_pulls [] = 0"
  "local_pulls (e # es) = (if is_local_pull e then 1 else 0) + local_pulls es"
  by (simp_all add: local_pulls_def)

lemma is_local_pull_simps [simp]:
  "is_local_pull (EvExecProcNode tup) = True"
  "is_local_pull (EvExecInitParallelPlan n) = False"
  "is_local_pull EvExecParallelReinitialize = False"
  "is_local_pull (EvLaunchParallelWorkers n) = False"
  "is_local_pull (EvCreateTupleQueueReader i) = False"
  "is_local_pull (EvParallelWorkersSetupDone n) = False"
  "is_local_pull (EvTupleQueueReaderNext i tup d) = False"
  "is_local_pull (EvDestroyTupleQueueReader i) = False"
  "is_local_pull EvWaitLatch = False"
  "is_local_pull EvExecParallelFinish = False"
  "is_local_pull EvExecParallelCleanup = False"
  "is_local_pull EvExecReScan = False"
  "is_local_pull (EvWaitForParallelWorkerDone n b) = False"
  "is_local_pull (EvElog k j) = False"
  "is_local_pull (EvExecProject x) = False"
  by (simp_all add: is_local_pull_def)

lemma gets_tuple_simps [simp]:
  "gets_tuple (EvExecProcNode tup) = tup"
  "gets_tuple (EvTupleQueueReaderNext i tup d) = tup"
  "gets_tuple (EvExecInitParallelPlan n) = None"
  "gets_tuple EvExecParallelReinitialize = None"
  "gets_tuple (EvLaunchParallelWorkers n) = None"
  "gets_tuple (EvCreateTupleQueueReader i) = None"
  "gets_tuple (EvParallelWorkersSetupDone n) = None"
  "gets_tuple (EvDestroyTupleQueueReader i) = None"
  "gets_tuple EvWaitLatch = None"
  "gets_tuple EvExecParallelFinish = None"
  "gets_tuple EvExecParallelCleanup = None"
  "gets_tuple EvExecReScan = None"
  "gets_tuple (EvWaitForParallelWorkerDone n b) = None"
  "gets_tuple (EvElog k j) = None"
  "gets_tuple (EvExecProject x) = None"
  by (simp_all add: gets_tuple_def)

lemma no_tuple_events_simps [simp]:
  "no_tuple_events []"
  "no_tuple_events (e # es) \<longleftrightarrow> gets_tuple e = None \<and> \<not> is_local_pull e \<and> no_tuple_events es"
  "no_tuple_events (a @ b) \<longleftrightarrow> no_tuple_events a \<and> no_tuple_events b"
  "no_tuple_events (map EvCreateTupleQueueReader is)"
  "no_tuple_events (map (\<lambda>r. EvDestroyTupleQueueReader (rid r)) rs)"
  by (auto simp: no_tuple_events_def)

lemma ExecShutdownGatherWorkers_events:
  assumes "ExecShutdownGatherWorkers w node = (w', node')"
  shows "\<exists>es. trace w' = trace w @ es \<and> no_tuple_events es"
  using assms
  by (auto simp: ExecShutdownGatherWorkers_def log_event_def log_events_def Let_def
      split: option.splits if_splits)

lemma LaunchParallelWorkers_events:
  assumes "LaunchParallelWorkers p w = (queues, w')"
  shows "\<exists>es. trace w' = trace w @ es \<and> no_tuple_events es"
  using assms
  by (auto simp: LaunchParallelWorkers_def log_event_def Let_def split: list.splits)

lemma setup_events:
  assumes "ExecGather_setup glb w node = (psend, launched, w1, node1)"
  shows "\<exists>es. trace w1 = trace w @ es \<and> no_tuple_events es"
proof (cases "\<not> IsParallelWorker glb \<and> \<not> initialized node \<and>
              num_workers (ps_plan node) > 0 \<and> IsInParallelMode glb")
  case False
  with assms have "w1 = w"
    by (auto simp: ExecGather_setup_def Let_def split: if_splits)
  then show ?thesis by simp
next
  case True
  obtain p wa nodea where
    a: "(case pei node of
           None \<Rightarrow>
             (let p = \<lparr>nworkers = num_workers (ps_plan node)\<rparr>
              in (p, log_event (EvExecInitParallelPlan (num_workers (ps_plan node))) w,
                  node\<lparr>pei := Some p\<rparr>))
         | Some p \<Rightarrow> (p, log_event EvExecParallelReinitialize w, node)) = (p, wa, nodea)"
    by (metis prod_cases3)
  then have ea: "\<exists>es. trace wa = trace w @ es \<and> no_tuple_events es"
    by (auto simp: log_event_def Let_def split: option.splits)
  obtain queues wb where b: "LaunchParallelWorkers p wa = (queues, wb)"
    by (cases "LaunchParallelWorkers p wa")
  note eb = LaunchParallelWorkers_events[OF b]
  have "\<exists>es. trace w1 = trace wb @ es \<and> no_tuple_events es"
  proof (cases "queues = []")
    case e: True
    obtain wc nodec where c: "ExecShutdownGatherWorkers wb
        (nodea\<lparr>nworkers_launched := int (length queues)\<rparr>) = (wc, nodec)"
      by (cases "ExecShutdownGatherWorkers wb (nodea\<lparr>nworkers_launched := int (length queues)\<rparr>)")
    with assms True a b e have "w1 = wc"
      by (simp add: ExecGather_setup_def Let_def)
    with ExecShutdownGatherWorkers_events[OF c] show ?thesis by simp
  next
    case ne: False
    with assms True a b show ?thesis
      by (cases "parallelWorker_sendTuple (ps_plan node)")
        (auto simp: ExecGather_setup_def Let_def log_event_def log_events_def)
  qed
  with ea eb show ?thesis by (metis append.assoc no_tuple_events_simps(3))
qed

lemma no_tuple_events_pulls: "no_tuple_events es \<Longrightarrow> local_pulls es = 0"
  by (induction es) auto

text \<open>After the first part, a call goes on as a call on an initialized node does.\<close>

lemma ExecGather_after_setup:
  assumes "ExecGather_setup glb w gs = (False, launched, w1, gs1)" "initialized gs1"
    "InterruptPending w1 = InterruptPending w"
  shows "ExecGather glb w gs = ExecGather glb w1 gs1"
proof -
  have "ExecGather_setup glb w1 gs1 = (False, 0, w1, gs1)"
    using assms(2) by (simp add: ExecGather_setup_def)
  with assms show ?thesis by (simp add: ExecGather_def Let_def)
qed

lemma setup_initialized:
  "initialized gs \<Longrightarrow> ExecGather_setup glb w gs = (False, 0, w, gs)"
  by (simp add: ExecGather_setup_def)

lemma setup_frame:
  assumes "ExecGather_setup glb w node = (psend, launched, w1, node1)"
  shows "InterruptPending w1 = InterruptPending w \<and> outer_rows w1 = outer_rows w \<and>
         clock w1 = clock w \<and> clock_reads w1 = clock_reads w \<and>
         ps_ProjInfo node1 = ps_ProjInfo node \<and> ps_plan node1 = ps_plan node \<and>
         get_tuples node1 = get_tuples node \<and> get_total_time node1 = get_total_time node"
  using assms
  by (auto simp: ExecGather_setup_def Let_def log_event_def log_events_def
      split: if_splits option.splits prod.splits
      dest!: LaunchParallelWorkers_frame
      dest: ExecShutdownGatherWorkers_node ExecShutdownGatherWorkers_frame)

lemma setup_launched:
  assumes "ExecGather_setup glb w node = (psend, launched, w1, node1)" "1 \<le> launched"
  shows "initialized node1" "\<not> need_to_scan_locally node1" "psend \<Longrightarrow> reader node1 = None"
  using assms
  by (auto simp: ExecGather_setup_def Let_def split: if_splits option.splits prod.splits
      dest: ExecShutdownGatherWorkers_node)

text \<open>A call on an initialized node that does not scan locally.\<close>

lemma call_without_local:
  assumes "initialized gs" "\<not> need_to_scan_locally gs" "ExecGather glb w gs = Inr (r, w', gs')"
  shows "initialized gs'" "\<not> need_to_scan_locally gs'"
    "local_pulls (trace w') = local_pulls (trace w)"
proof -
  have ni: "\<not> InterruptPending w" using assms(3) by (auto simp: ExecGather_def split: if_splits)
  let ?gs2 = "gs\<lparr>funnel_slot := None\<rparr>"
  obtain t0 w2 where
    ts: "(if enable_statistic glb \<and> \<not> need_to_scan_locally ?gs2
          then GetCurrentTimestamp w else (0, w)) = (t0, w2)"
    by (cases "if enable_statistic glb \<and> \<not> need_to_scan_locally ?gs2
          then GetCurrentTimestamp w else (0, w)") auto
  then have t2: "trace w2 = trace w" by (auto split: if_splits dest: GetCurrentTimestamp_frame)
  from assms(3) ni ts obtain r3 w3 gs3 where
    g: "gather_getnext w2 ?gs2 = Inr (r3, w3, gs3)"
    by (cases "gather_getnext w2 ?gs2")
      (auto simp: ExecGather_def Let_def setup_initialized[OF assms(1)])
  from getnext_scan_step[OF g] assms(1,2) obtain es where
    f: "initialized gs3" "\<not> need_to_scan_locally gs3" "trace w3 = trace w2 @ es"
      "\<forall>e\<in>set es. \<not> is_local_pull e"
    by (auto simp: scan_step_def scan_frame_def)
  then have p3: "local_pulls (trace w3) = local_pulls (trace w)"
    using t2 by (simp add: local_pulls_def)
  obtain e w4 where e: "GetCurrentTimestamp w3 = (e, w4)" by (cases "GetCurrentTimestamp w3")
  then have t4: "trace w4 = trace w3" by (auto dest: GetCurrentTimestamp_frame)
  from assms(3) ni ts g f(1,2) p3 e t4
  show "initialized gs'" "\<not> need_to_scan_locally gs'"
    "local_pulls (trace w') = local_pulls (trace w)"
    by (cases r3; auto simp: ExecGather_def Let_def setup_initialized[OF assms(1)]
        log_event_def split: if_splits)+
qed

lemma calls_without_local:
  assumes "initialized gs" "\<not> need_to_scan_locally gs"
    "ExecGather_times k glb w gs = Inr (slots, w', gs')"
  shows "local_pulls (trace w') = local_pulls (trace w)"
  using assms
proof (induction k arbitrary: w gs slots)
  case 0
  then show ?case by simp
next
  case (Suc k)
  from Suc.prems(3) obtain r w1 gs1 rs where
    c: "ExecGather glb w gs = Inr (r, w1, gs1)" "ExecGather_times k glb w1 gs1 = Inr (rs, w', gs')"
    by (auto split: sum.splits prod.splits)
  note l = call_without_local[OF Suc.prems(1,2) c(1)]
  from Suc.IH[OF l(1,2) c(2)] l(3) show ?case by simp
qed


subsection \<open>The end of a scan\<close>

lemma terminal_call:
  assumes "terminal gs" "\<not> InterruptPending w"
  shows "\<exists>w'. ExecGather glb w gs = Inr (None, w', gs) \<and> \<not> InterruptPending w'"
proof -
  from assms(1) have t: "initialized gs" "reader gs = None" "\<not> need_to_scan_locally gs"
    "funnel_slot gs = None" by (simp_all add: terminal_def)
  have su: "ExecGather_setup glb w gs = (False, 0, w, gs)"
    using t(1) by (simp add: ExecGather_setup_def)
  have fs: "gs\<lparr>funnel_slot := None\<rparr> = gs" using t(4) by (cases gs) simp
  have g: "gather_getnext w' gs = Inr (None, w', gs)" for w'
    using t(2,3) fs by (simp add: gather_getnext.simps[of w' gs] gather_getnext_round_def)
  show ?thesis
    using assms(2) su fs g t(3)
    by (cases "enable_statistic glb")
      (simp_all add: ExecGather_def Let_def GetCurrentTimestamp_def log_event_def)
qed

lemma terminal_calls:
  assumes "terminal gs" "\<not> InterruptPending w"
  shows "\<exists>wk. ExecGather_times k glb w gs = Inr (replicate k None, wk, gs)"
  using assms
proof (induction k arbitrary: w)
  case 0
  show ?case by simp
next
  case (Suc k)
  from terminal_call[OF Suc.prems, of glb] obtain w' where
    c: "ExecGather glb w gs = Inr (None, w', gs)" "\<not> InterruptPending w'" by blast
  from Suc.IH[OF Suc.prems(1) c(2)] obtain wk where
    "ExecGather_times k glb w' gs = Inr (replicate k None, wk, gs)" ..
  with c(1) show ?case by simp
qed

subsection \<open>A scan by the leader alone\<close>

text \<open>A call on an initialized node that has no reader array and scans locally.\<close>

lemma local_call:
  assumes "initialized gs" "reader gs = None" "need_to_scan_locally gs" "\<not> InterruptPending w"
  shows "case outer_rows w of
           [] \<Rightarrow> \<exists>w' gs'. ExecGather glb w gs = Inr (None, w', gs')
         | t # ts \<Rightarrow>
             \<exists>w'. ExecGather glb w gs = Inr (Some (ps_ProjInfo gs t), w', gs\<lparr>funnel_slot := None\<rparr>) \<and>
                  outer_rows w' = ts \<and> \<not> InterruptPending w'"
  using assms
  by (cases w rule: ExecProcNode_cases)
    (simp_all add: ExecGather_def Let_def setup_initialized gather_getnext.simps
      gather_getnext_round_def log_event_def)

lemma local_calls:
  assumes "initialized gs" "reader gs = None" "need_to_scan_locally gs" "\<not> InterruptPending w"
  shows "\<exists>w' gs'. ExecGather_times (length (outer_rows w) + 1) glb w gs =
           Inr (map (\<lambda>t. Some (ps_ProjInfo gs t)) (outer_rows w) @ [None], w', gs')"
  using assms
proof (induction "outer_rows w" arbitrary: w gs)
  case Nil
  with local_call[OF Nil.prems, of glb] show ?case by (auto simp: Nil.hyps[symmetric])
next
  case (Cons t ts)
  from local_call[OF Cons.prems, of glb] Cons.hyps(2)[symmetric] obtain w1 where
    c: "ExecGather glb w gs = Inr (Some (ps_ProjInfo gs t), w1, gs\<lparr>funnel_slot := None\<rparr>)"
      "outer_rows w1 = ts" "\<not> InterruptPending w1"
    by auto
  from Cons.hyps(1)[OF c(2)[symmetric], of "gs\<lparr>funnel_slot := None\<rparr>"] Cons.prems c(3)
  obtain w' gs' where
    "ExecGather_times (length ts + 1) glb w1 (gs\<lparr>funnel_slot := None\<rparr>) =
       Inr (map (\<lambda>t. Some (ps_ProjInfo gs t)) ts @ [None], w', gs')"
    using c(2) by auto
  with c(1) Cons.hyps(2)[symmetric] show ?case by simp
qed

lemma setup_none_launched:
  assumes "node_inv node" "\<not> initialized node"
    "\<not> parallelWorker_sendTuple (ps_plan node)"
    "ExecGather_setup glb w node = (psend, 0, w1, node1)"
  shows "\<not> psend" "reader node1 = None" "need_to_scan_locally node1" "initialized node1"
  using assms
  by (auto simp: ExecGather_setup_def node_inv_def Let_def
      split: if_splits option.splits prod.splits
      dest: ExecShutdownGatherWorkers_node)

subsection \<open>The qual and the tuples of a call\<close>

lemma with_qual_simps [simp]:
  "with_qual q (Inl e) = Inl e"
  "with_qual q (Inr (r, w', gs')) = Inr (r, w', gs'\<lparr>ps_qual := q\<rparr>)"
  by (simp_all add: with_qual_def)

lemma turn_qual:
  "gather_readnext_turn w (gs\<lparr>ps_qual := q\<rparr>) nv =
     (case gather_readnext_turn w gs nv of
        Fail e \<Rightarrow> Fail e
      | Exit r w' gs' \<Rightarrow> Exit r w' (gs'\<lparr>ps_qual := q\<rparr>)
      | Again w' gs' nv' \<Rightarrow> Again w' (gs'\<lparr>ps_qual := q\<rparr>) nv')"
  by (simp add: gather_readnext_turn_def ExecShutdownGatherWorkers_def Let_def
      split: option.splits prod.splits)

lemma loop_qual:
  "gather_readnext_loop w (gs\<lparr>ps_qual := q\<rparr>) nv = with_qual q (gather_readnext_loop w gs nv)"
proof (induction w gs nv rule: gather_readnext_loop.induct)
  case (1 w gs nv)
  show ?case
  proof (cases "gather_readnext_turn w gs nv")
    case (Fail e)
    then show ?thesis
      by (simp add: gather_readnext_loop.simps[of w gs nv]
          gather_readnext_loop.simps[of w "gs\<lparr>ps_qual := q\<rparr>" nv] turn_qual)
  next
    case (Exit r w' gs')
    then show ?thesis
      by (simp add: gather_readnext_loop.simps[of w gs nv]
          gather_readnext_loop.simps[of w "gs\<lparr>ps_qual := q\<rparr>" nv] turn_qual)
  next
    case (Again w' gs' nv')
    with "1.IH"[OF Again] show ?thesis
      by (simp add: gather_readnext_loop.simps[of w gs nv]
          gather_readnext_loop.simps[of w "gs\<lparr>ps_qual := q\<rparr>" nv] turn_qual)
  qed
qed

lemma round_qual:
  "gather_getnext_round w (gs\<lparr>ps_qual := q\<rparr>) =
     (case gather_getnext_round w gs of
        Broken e \<Rightarrow> Broken e
      | Yield r w' gs' \<Rightarrow> Yield r w' (gs'\<lparr>ps_qual := q\<rparr>)
      | Repeat w' gs' \<Rightarrow> Repeat w' (gs'\<lparr>ps_qual := q\<rparr>))"
proof (cases "gather_readnext_loop w gs 0")
  case (Inl e)
  then show ?thesis
    by (cases w rule: ExecProcNode_cases)
      (simp_all add: gather_getnext_round_def gather_readnext_def loop_qual)
next
  case (Inr x)
  obtain r w1 gs1 where "x = (r, w1, gs1)" by (cases x)
  with Inr show ?thesis
    by (cases w rule: ExecProcNode_cases; cases w1 rule: ExecProcNode_cases; cases r)
      (simp_all add: gather_getnext_round_def gather_readnext_def loop_qual)
qed

lemma getnext_qual:
  "gather_getnext w (gs\<lparr>ps_qual := q\<rparr>) = with_qual q (gather_getnext w gs)"
proof (induction w gs rule: gather_getnext.induct)
  case (1 w gs)
  show ?case
  proof (cases "gather_getnext_round w gs")
    case (Broken e)
    then show ?thesis
      by (simp add: gather_getnext.simps[of w gs]
          gather_getnext.simps[of w "gs\<lparr>ps_qual := q\<rparr>"] round_qual)
  next
    case (Yield r w' gs')
    then show ?thesis
      by (simp add: gather_getnext.simps[of w gs]
          gather_getnext.simps[of w "gs\<lparr>ps_qual := q\<rparr>"] round_qual)
  next
    case (Repeat w' gs')
    with "1.IH"[OF Repeat] show ?thesis
      by (simp add: gather_getnext.simps[of w gs]
          gather_getnext.simps[of w "gs\<lparr>ps_qual := q\<rparr>"] round_qual)
  qed
qed

lemma setup_qual:
  "ExecGather_setup glb w (gs\<lparr>ps_qual := q\<rparr>) =
     (case ExecGather_setup glb w gs of
        (psend, launched, w1, gs1) \<Rightarrow> (psend, launched, w1, gs1\<lparr>ps_qual := q\<rparr>))"
proof (cases "\<not> IsParallelWorker glb \<and> \<not> initialized gs \<and>
              num_workers (ps_plan gs) > 0 \<and> IsInParallelMode glb")
  case False
  then show ?thesis by (auto simp: ExecGather_setup_def Let_def)
next
  case True
  obtain p wa gsa where
    a: "(case pei gs of
           None \<Rightarrow>
             (let p = \<lparr>nworkers = num_workers (ps_plan gs)\<rparr>
              in (p, log_event (EvExecInitParallelPlan (num_workers (ps_plan gs))) w,
                  gs\<lparr>pei := Some p\<rparr>))
         | Some p \<Rightarrow> (p, log_event EvExecParallelReinitialize w, gs)) = (p, wa, gsa)"
    by (metis prod_cases3)
  then have aq: "(case pei gs of
           None \<Rightarrow>
             (let p = \<lparr>nworkers = num_workers (ps_plan gs)\<rparr>
              in (p, log_event (EvExecInitParallelPlan (num_workers (ps_plan gs))) w,
                  gs\<lparr>ps_qual := q, pei := Some p\<rparr>))
         | Some p \<Rightarrow> (p, log_event EvExecParallelReinitialize w, gs\<lparr>ps_qual := q\<rparr>)) =
         (p, wa, gsa\<lparr>ps_qual := q\<rparr>)"
    by (auto simp: Let_def split: option.splits)
  obtain queues wb where b: "LaunchParallelWorkers p wa = (queues, wb)"
    by (cases "LaunchParallelWorkers p wa")
  show ?thesis
    using True a aq b
    by (cases "queues = []"; cases "parallelWorker_sendTuple (ps_plan gs)")
      (simp_all add: ExecGather_setup_def Let_def ExecShutdownGatherWorkers_def
        split: option.splits)
qed

lemma ExecGather_qual:
  "ExecGather glb w (gs\<lparr>ps_qual := q\<rparr>) = with_qual q (ExecGather glb w gs)"
proof (cases "InterruptPending w")
  case True
  then show ?thesis by (simp add: ExecGather_def)
next
  case ni: False
  obtain psend launched w1 gs1 where
    su: "ExecGather_setup glb w gs = (psend, launched, w1, gs1)"
    by (cases "ExecGather_setup glb w gs") auto
  then have su_q: "ExecGather_setup glb w (gs\<lparr>ps_qual := q\<rparr>) =
      (psend, launched, w1, gs1\<lparr>ps_qual := q\<rparr>)"
    by (simp add: setup_qual)
  show ?thesis
  proof (cases psend)
    case True
    with ni su su_q show ?thesis by (simp add: ExecGather_def Let_def)
  next
    case False
    obtain t0 w2 where
      ts: "(if enable_statistic glb \<and> \<not> need_to_scan_locally gs1
            then GetCurrentTimestamp w1 else (0, w1)) = (t0, w2)"
      by (cases "if enable_statistic glb \<and> \<not> need_to_scan_locally gs1
            then GetCurrentTimestamp w1 else (0, w1)") auto
    have g_q: "gather_getnext w2 (gs1\<lparr>ps_qual := q, funnel_slot := None\<rparr>) =
        with_qual q (gather_getnext w2 (gs1\<lparr>funnel_slot := None\<rparr>))"
    proof -
      have eq: "gs1\<lparr>ps_qual := q, funnel_slot := None\<rparr> = gs1\<lparr>funnel_slot := None, ps_qual := q\<rparr>"
        by (cases gs1) simp
      show ?thesis unfolding eq by (rule getnext_qual)
    qed
    show ?thesis
    proof (cases "gather_getnext w2 (gs1\<lparr>funnel_slot := None\<rparr>)")
      case (Inl e)
      with ni su su_q False ts g_q show ?thesis by (simp add: ExecGather_def Let_def)
    next
      case (Inr x)
      obtain r3 w3 gs3 where x: "x = (r3, w3, gs3)" by (cases x)
      obtain e w4 where e: "GetCurrentTimestamp w3 = (e, w4)" by (cases "GetCurrentTimestamp w3")
      show ?thesis
      proof (cases r3)
        case None
        with Inr x ni su su_q False ts g_q show ?thesis by (simp add: ExecGather_def Let_def)
      next
        case (Some slot)
        with Inr x e ni su su_q False ts g_q show ?thesis by (simp add: ExecGather_def Let_def)
      qed
    qed
  qed
qed


text \<open>A tuple that a call is handed is the tuple the call returns, projected.\<close>

lemma call_events:
  assumes "ExecGather glb w gs = Inr (r, w', gs')"
  shows "\<exists>es. trace w' = trace w @ es \<and>
           (\<forall>e\<in>set es. \<forall>t. gets_tuple e = Some t \<longrightarrow> r = Some (ps_ProjInfo gs t))"
proof -
  have ni: "\<not> InterruptPending w" using assms by (auto simp: ExecGather_def split: if_splits)
  obtain psend launched w1 gs1 where
    su: "ExecGather_setup glb w gs = (psend, launched, w1, gs1)"
    by (cases "ExecGather_setup glb w gs") auto
  from setup_events[OF su] obtain es1 where
    e1: "trace w1 = trace w @ es1" "no_tuple_events es1" by blast
  from setup_frame[OF su] have pj: "ps_ProjInfo gs1 = ps_ProjInfo gs" by simp
  show ?thesis
  proof (cases psend)
    case True
    with assms ni su have "trace w' = trace w1 @ [EvWaitForParallelWorkerDone launched (launched = 0)]"
      by (auto simp: ExecGather_def Let_def log_event_def)
    with e1 show ?thesis by (auto simp: no_tuple_events_def)
  next
    case False
    let ?gs2 = "gs1\<lparr>funnel_slot := None\<rparr>"
    obtain t0 w2 where
      ts: "(if enable_statistic glb \<and> \<not> need_to_scan_locally ?gs2
            then GetCurrentTimestamp w1 else (0, w1)) = (t0, w2)"
      by (cases "if enable_statistic glb \<and> \<not> need_to_scan_locally ?gs2
            then GetCurrentTimestamp w1 else (0, w1)") auto
    then have t2: "trace w2 = trace w1" by (auto split: if_splits dest: GetCurrentTimestamp_frame)
    from assms ni su False ts obtain r3 w3 gs3 where
      g: "gather_getnext w2 ?gs2 = Inr (r3, w3, gs3)"
      by (cases "gather_getnext w2 ?gs2") (auto simp: ExecGather_def Let_def)
    from getnext_scan_step[OF g] pj obtain es3 where
      e3: "trace w3 = trace w2 @ es3" "\<forall>e\<in>set es3. gets_tuple e = None \<or> gets_tuple e = r3"
        "ps_ProjInfo gs3 = ps_ProjInfo gs"
      by (auto simp: scan_step_def scan_frame_def)
    obtain e w4 where e: "GetCurrentTimestamp w3 = (e, w4)" by (cases "GetCurrentTimestamp w3")
    then have t4: "trace w4 = trace w3" by (auto dest: GetCurrentTimestamp_frame)
    show ?thesis
    proof (cases r3)
      case None
      with assms ni su False ts g have "r = None"
        "trace w' = trace w3 \<or> trace w' = trace w3 @ [EvElog (get_tuples gs3) (get_total_time gs3)]"
        by (auto simp: ExecGather_def Let_def log_event_def split: if_splits)
      with e1 e3 t2 None show ?thesis by (auto simp: no_tuple_events_def)
    next
      case (Some slot)
      with assms ni su False ts g e t4 e3(3) have "r = Some (ps_ProjInfo gs slot)"
        "trace w' = trace w3 @ [EvExecProject slot]"
        by (auto simp: ExecGather_def Let_def log_event_def split: if_splits)
      with e1 e3 t2 Some show ?thesis by (auto simp: no_tuple_events_def)
    qed
  qed
qed

subsection \<open>The counters of a call\<close>

lemma stat_call:
  assumes "enable_statistic glb" "initialized gs" "\<not> need_to_scan_locally gs"
    "ExecGather glb w gs = Inr (Some t, w', gs')"
  shows "initialized gs'" "\<not> need_to_scan_locally gs'"
    "get_tuples gs' = get_tuples gs + 1"
    "get_total_time gs' =
       (if get_total_time gs = - 1 then 0 else get_total_time gs + read_latency w 0)"
    "clock w' = clock w" "clock_reads w' = clock_reads w + 2"
proof -
  have ni: "\<not> InterruptPending w" using assms(4) by (auto simp: ExecGather_def split: if_splits)
  let ?gs2 = "gs\<lparr>funnel_slot := None\<rparr>"
  let ?w2 = "w\<lparr>clock_reads := Suc (clock_reads w)\<rparr>"
  from assms ni obtain r3 w3 gs3 where
    g: "gather_getnext ?w2 ?gs2 = Inr (r3, w3, gs3)"
    by (cases "gather_getnext ?w2 ?gs2")
      (auto simp: ExecGather_def Let_def setup_initialized GetCurrentTimestamp_def)
  from getnext_scan_step[OF g] assms(2,3) have
    f: "initialized gs3" "\<not> need_to_scan_locally gs3" "clock w3 = clock w"
      "clock_reads w3 = Suc (clock_reads w)" "get_tuples gs3 = get_tuples gs"
      "get_total_time gs3 = get_total_time gs"
    by (auto simp: scan_step_def scan_frame_def)
  have e: "ExecGather glb w gs =
      (case r3 of
         None \<Rightarrow> Inr (None, log_event (EvElog (get_tuples gs3) (get_total_time gs3)) w3, gs3)
       | Some slot \<Rightarrow>
           Inr (Some (ps_ProjInfo gs3 slot),
                log_event (EvExecProject slot) (w3\<lparr>clock_reads := Suc (clock_reads w3)\<rparr>),
                if get_total_time gs3 = - 1
                then gs3\<lparr>get_tuples := get_tuples gs3 + 1, get_total_time := 0\<rparr>
                else gs3\<lparr>get_tuples := get_tuples gs3 + 1,
                         get_total_time := get_total_time gs3 +
                           (clock w3 (clock_reads w3) - clock w (clock_reads w))\<rparr>))"
    using assms(1,2,3) ni g f(2)
    by (cases r3)
      (simp_all add: ExecGather_def Let_def setup_initialized GetCurrentTimestamp_def)
  with assms(4) obtain slot where r3: "r3 = Some slot" by (cases r3) auto
  from e r3 assms(4) have
    w': "w' = log_event (EvExecProject slot) (w3\<lparr>clock_reads := Suc (clock_reads w3)\<rparr>)"
    and gs': "gs' = (if get_total_time gs3 = - 1
                then gs3\<lparr>get_tuples := get_tuples gs3 + 1, get_total_time := 0\<rparr>
                else gs3\<lparr>get_tuples := get_tuples gs3 + 1,
                         get_total_time := get_total_time gs3 +
                           (clock w3 (clock_reads w3) - clock w (clock_reads w))\<rparr>)"
    by simp_all
  from gs' f show "initialized gs'" "\<not> need_to_scan_locally gs'"
    "get_tuples gs' = get_tuples gs + 1"
    by (simp_all split: if_splits)
  from gs' f show "get_total_time gs' =
       (if get_total_time gs = - 1 then 0 else get_total_time gs + read_latency w 0)"
    by (simp add: read_latency_def)
  from w' f show "clock w' = clock w" "clock_reads w' = clock_reads w + 2"
    by (simp_all add: log_event_def)
qed

lemma stat_calls:
  assumes "enable_statistic glb" "initialized gs" "\<not> need_to_scan_locally gs"
    "\<forall>i. clock w i \<le> clock w (Suc i)" "- 1 \<le> get_total_time gs"
    "ExecGather_times k glb w gs = Inr (slots, w', gs')" "None \<notin> set slots"
  shows "get_tuples gs' = get_tuples gs + k \<and>
         get_total_time gs' =
           (if get_total_time gs = - 1
            then (if k = 0 then - 1 else (\<Sum>j = 1..<k. read_latency w j))
            else get_total_time gs + (\<Sum>j = 0..<k. read_latency w j))"
  using assms
proof (induction k arbitrary: w gs slots)
  case 0
  then show ?case by simp
next
  case (Suc k)
  from Suc.prems(6) obtain r w1 gs1 rs where
    c: "ExecGather glb w gs = Inr (r, w1, gs1)" "ExecGather_times k glb w1 gs1 = Inr (rs, w', gs')"
      "slots = r # rs"
    by (auto split: sum.splits prod.splits)
  with Suc.prems(7) obtain t where r: "r = Some t" and rs: "None \<notin> set rs" by (cases r) auto
  note s = stat_call[OF Suc.prems(1,2,3) c(1)[unfolded r]]
  have lat: "0 \<le> read_latency w 0" using Suc.prems(4) by (simp add: read_latency_def)
  have t1: "0 \<le> get_total_time gs1" using s(4) lat Suc.prems(5) by (auto split: if_splits)
  have m1: "\<forall>i. clock w1 i \<le> clock w1 (Suc i)" using s(5) Suc.prems(4) by simp
  have l1: "read_latency w1 j = read_latency w (Suc j)" for j
    using s(5,6) by (simp add: read_latency_def)
  from Suc.IH[OF Suc.prems(1) s(1,2) m1 _ c(2) rs] t1
  have ih: "get_tuples gs' = get_tuples gs1 + k"
    "get_total_time gs' = get_total_time gs1 + (\<Sum>j = 0..<k. read_latency w (Suc j))"
    by (auto simp: l1)
  have sh: "(\<Sum>j = 0..<k. read_latency w (Suc j)) = (\<Sum>j = 1..<Suc k. read_latency w j)"
    using sum.shift_bounds_Suc_ivl[of "read_latency w" 0 k] by simp
  have sp: "(\<Sum>j = 0..<Suc k. read_latency w j) = read_latency w 0 + (\<Sum>j = 1..<Suc k. read_latency w j)"
    by (simp add: sum.atLeast_Suc_lessThan)
  from ih s(3,4) sh sp show ?case by auto
qed

text \<open>The counters after a scan whose first call launches a worker.\<close>

lemma stat_scan:
  assumes "enable_statistic glb" "1 \<le> fst (snd (ExecGather_setup glb w gs))"
    "get_tuples gs = 0" "get_total_time gs = - 1"
    "\<forall>i. clock w i \<le> clock w (Suc i)"
    "ExecGather_times k glb w gs = Inr (slots, w', gs')" "None \<notin> set slots"
  shows "get_tuples gs' = k \<and>
         get_total_time gs' = (if k = 0 then - 1 else (\<Sum>j = 1..<k. read_latency w j))"
proof (cases k)
  case 0
  with assms show ?thesis by simp
next
  case (Suc k')
  obtain psend launched w1 gs1 where
    su: "ExecGather_setup glb w gs = (psend, launched, w1, gs1)"
    by (cases "ExecGather_setup glb w gs") auto
  with assms(2) have l: "1 \<le> launched" by simp
  note sl = setup_launched[OF su l]
  note f = setup_frame[OF su]
  from assms(6) Suc obtain r wa gsa rs where
    c: "ExecGather glb w gs = Inr (r, wa, gsa)" "slots = r # rs"
    by (auto split: sum.splits prod.splits)
  have ni: "\<not> InterruptPending w" using c(1) by (auto simp: ExecGather_def split: if_splits)
  have np: "\<not> psend"
  proof
    assume psend
    with c(1) su ni have "r = None" by (auto simp: ExecGather_def Let_def)
    with c(2) assms(7) show False by simp
  qed
  with su have su': "ExecGather_setup glb w gs = (False, launched, w1, gs1)" by simp
  from f have e: "ExecGather glb w gs = ExecGather glb w1 gs1"
    by (intro ExecGather_after_setup[OF su' sl(1)]) simp
  with assms(6) Suc have t: "ExecGather_times k glb w1 gs1 = Inr (slots, w', gs')" by simp
  have m1: "\<forall>i. clock w1 i \<le> clock w1 (Suc i)" using f assms(5) by simp
  have t1: "- 1 \<le> get_total_time gs1" using f assms(4) by simp
  have l1: "read_latency w1 j = read_latency w j" for j using f by (simp add: read_latency_def)
  from stat_calls[OF assms(1) sl(1,2) m1 t1 t assms(7)] f assms(3,4) l1 show ?thesis by simp
qed

text \<open>
  A call that ends with the leader scanning locally, or that returns the empty slot, leaves
  the counters as they are.
\<close>

lemma call_counters_kept:
  assumes "ExecGather glb w gs = Inr (r, w', gs')" "need_to_scan_locally gs' \<or> r = None"
  shows "get_tuples gs' = get_tuples gs \<and> get_total_time gs' = get_total_time gs"
proof -
  have ni: "\<not> InterruptPending w" using assms(1) by (auto simp: ExecGather_def split: if_splits)
  obtain psend launched w1 gs1 where
    su: "ExecGather_setup glb w gs = (psend, launched, w1, gs1)"
    by (cases "ExecGather_setup glb w gs") auto
  from setup_frame[OF su] have c1: "get_tuples gs1 = get_tuples gs"
    "get_total_time gs1 = get_total_time gs" by simp_all
  show ?thesis
  proof (cases psend)
    case True
    with assms(1) ni su c1 show ?thesis by (auto simp: ExecGather_def Let_def)
  next
    case False
    let ?gs2 = "gs1\<lparr>funnel_slot := None\<rparr>"
    obtain t0 w2 where
      ts: "(if enable_statistic glb \<and> \<not> need_to_scan_locally ?gs2
            then GetCurrentTimestamp w1 else (0, w1)) = (t0, w2)"
      by (cases "if enable_statistic glb \<and> \<not> need_to_scan_locally ?gs2
            then GetCurrentTimestamp w1 else (0, w1)") auto
    from assms(1) ni su False ts obtain r3 w3 gs3 where
      g: "gather_getnext w2 ?gs2 = Inr (r3, w3, gs3)"
      by (cases "gather_getnext w2 ?gs2") (auto simp: ExecGather_def Let_def)
    from getnext_scan_step[OF g] c1 have
      c3: "get_tuples gs3 = get_tuples gs" "get_total_time gs3 = get_total_time gs"
      by (simp_all add: scan_step_def scan_frame_def)
    obtain e w4 where e: "GetCurrentTimestamp w3 = (e, w4)" by (cases "GetCurrentTimestamp w3")
    show ?thesis
    proof (cases r3)
      case None
      with assms(1) ni su False ts g c3 show ?thesis
        by (auto simp: ExecGather_def Let_def split: if_splits)
    next
      case (Some slot)
      with assms ni su False ts g c3 e show ?thesis
        by (cases "enable_statistic glb \<and> \<not> need_to_scan_locally gs3")
          (auto simp: ExecGather_def Let_def split: if_splits)
    qed
  qed
qed

subsection \<open>The tuples of a scan\<close>

text \<open>
  Every turn of the polling loop, every turn of \<^verbatim>\<open>gather_getnext\<close> and every call of
  \<^verbatim>\<open>ExecGather\<close> takes from the sources of the node exactly the tuple it returns.
\<close>

lemma tuples_of_append [simp]: "tuples_of (xs @ ys) = tuples_of xs @ tuples_of ys"
  by (induction xs rule: tuples_of.induct) simp_all

lemma queued_simps [simp]:
  "queued [] = {#}"
  "queued (r # rs) = mset (tuples_of (pending r)) + queued rs"
  "queued (rs @ rs') = queued rs + queued rs'"
  by (simp_all add: queued_def)



lemma live_simps [simp]:
  "live (gs\<lparr>funnel_slot := x\<rparr>) = live gs"
  "live (gs\<lparr>need_to_scan_locally := b\<rparr>) = live gs"
  "live (gs\<lparr>get_tuples := k\<rparr>) = live gs"
  "live (gs\<lparr>get_total_time := i\<rparr>) = live gs"
  "live (gs\<lparr>initialized := c\<rparr>) = live gs"
  by (simp_all add: live_def split: option.splits)




lemma tuples_left_upd [simp]:
  "tuples_left w (gs\<lparr>funnel_slot := x\<rparr>) = tuples_left w gs"
  "tuples_left w (gs\<lparr>get_tuples := k\<rparr>) = tuples_left w gs"
  "tuples_left w (gs\<lparr>get_total_time := i\<rparr>) = tuples_left w gs"
  "tuples_left (log_event e w) gs = tuples_left w gs"
  by (simp_all add: tuples_left_def log_event_def)












section \<open>The claims\<close>

subsection \<open>Whether the leader scans locally\<close>

text \<open>
  Claim C1, as amended. The claim says that with \<open>single_copy\<close> off the first call always
  sets \<open>need_to_scan_locally\<close>. The code does not read \<open>single_copy\<close> there. When the
  leader tries to launch workers (it is not a worker itself, \<open>num_workers > 0\<close>, parallel
  mode), the first-call setup marks the node initialized and sets \<open>need_to_scan_locally\<close>
  exactly when no worker was launched and \<open>parallelWorker_sendTuple\<close> is off: the leader
  scans locally only in place of the workers, never beside them.
\<close>

theorem C1_need_to_scan_locally_after_setup:
  assumes "\<not> IsParallelWorker glb" "\<not> initialized node"
    "num_workers (ps_plan node) > 0" "IsInParallelMode glb"
    "ExecGather_setup glb w node = (psend, launched, w', node')"
  shows "initialized node' \<and> launched = nworkers_launched node' \<and>
         (need_to_scan_locally node' \<longleftrightarrow>
            launched = 0 \<and> \<not> parallelWorker_sendTuple (ps_plan node))"
  using assms
  by (auto simp: ExecGather_setup_def Let_def LaunchParallelWorkers_def min_def
      split: option.splits if_splits prod.splits list.splits
      dest!: ExecShutdownGatherWorkers_node)

text \<open>Two workers are asked for, \<open>single_copy\<close> is off, and no worker starts.\<close>

theorem C1_need_to_scan_locally_after_setup_witness:
  "need_to_scan_locally (snd (snd (snd (ExecGather_setup leader_globals
      (world_two_workers\<lparr>launches := []\<rparr>) (ExecInitGather plan_two_workers))))) \<and>
   fst (snd (ExecGather_setup leader_globals
      (world_two_workers\<lparr>launches := []\<rparr>) (ExecInitGather plan_two_workers))) = 0"
  using C1_need_to_scan_locally_after_setup [of leader_globals "ExecInitGather plan_two_workers"
      "world_two_workers\<lparr>launches := []\<rparr>"
      "fst (ExecGather_setup leader_globals (world_two_workers\<lparr>launches := []\<rparr>)
         (ExecInitGather plan_two_workers))"
      "fst (snd (ExecGather_setup leader_globals (world_two_workers\<lparr>launches := []\<rparr>)
         (ExecInitGather plan_two_workers)))"
      "fst (snd (snd (ExecGather_setup leader_globals (world_two_workers\<lparr>launches := []\<rparr>)
         (ExecInitGather plan_two_workers))))"
      "snd (snd (snd (ExecGather_setup leader_globals (world_two_workers\<lparr>launches := []\<rparr>)
         (ExecInitGather plan_two_workers))))"]
  by (simp add: leader_globals_def ExecInitGather_def plan_two_workers_def world_two_workers_def
      ExecGather_setup_def LaunchParallelWorkers_def ExecShutdownGatherWorkers_def log_event_def
      Let_def)

text \<open>
  The claim as stated fails: \<open>single_copy\<close> is off, two workers are launched, and the
  setup leaves \<open>need_to_scan_locally\<close> false.
\<close>

theorem C1_normal_mode_counterexample:
  "\<not> single_copy plan_two_workers \<and>
   nworkers_launched (snd (snd (snd (ExecGather_setup leader_globals world_two_workers
      (ExecInitGather plan_two_workers))))) = 2 \<and>
   \<not> need_to_scan_locally (snd (snd (snd (ExecGather_setup leader_globals world_two_workers
      (ExecInitGather plan_two_workers)))))"
  by code_simp

subsection \<open>Rescan\<close>



subsection \<open>The end of a scan is absorbing\<close>

text \<open>
  Claim C3. Once a call of \<^verbatim>\<open>ExecGather\<close> on a reachable node has returned the empty
  slot, every later call returns the empty slot and leaves the node as it is, whatever the
  process-wide settings are then, until the node is rescanned.
\<close>

theorem C3_terminal_absorbing:
  assumes "reachable gs" "ExecGather glb w gs = Inr (None, w1, gs1)"
  shows "\<exists>wk. ExecGather_times k glb' w1 gs1 = Inr (replicate k None, wk, gs1)"
proof -
  have ni: "\<not> InterruptPending w" using assms(2) by (auto simp: ExecGather_def split: if_splits)
  from ExecGather_inv[OF reachable_inv[OF assms(1)] ni, of glb] assms(2)
  have "terminal gs1" "\<not> InterruptPending w1" by auto
  then show ?thesis by (rule terminal_calls)
qed

text \<open>No worker is asked for and the child is empty: the first call returns the empty slot.\<close>

theorem C3_terminal_absorbing_witness:
  "reachable (ExecInitGather plan_no_workers) \<and>
   ExecGather leader_globals world_empty_child (ExecInitGather plan_no_workers) =
     Inr (None, world_empty_child\<lparr>trace := [EvExecProcNode None]\<rparr>,
          (ExecInitGather plan_no_workers)\<lparr>initialized := True, need_to_scan_locally := False\<rparr>) \<and>
   (\<exists>wk. ExecGather_times 3 leader_globals (world_empty_child\<lparr>trace := [EvExecProcNode None]\<rparr>)
            ((ExecInitGather plan_no_workers)\<lparr>initialized := True, need_to_scan_locally := False\<rparr>) =
          Inr ([None, None, None], wk,
               (ExecInitGather plan_no_workers)\<lparr>initialized := True, need_to_scan_locally := False\<rparr>))"
proof -
  have r: "reachable (ExecInitGather plan_no_workers)" by (rule reachable.init)
  have e: "ExecGather leader_globals world_empty_child (ExecInitGather plan_no_workers) =
     Inr (None, world_empty_child\<lparr>trace := [EvExecProcNode None]\<rparr>,
          (ExecInitGather plan_no_workers)\<lparr>initialized := True, need_to_scan_locally := False\<rparr>)"
    by (simp add: ExecGather_def ExecGather_setup_def ExecInitGather_def plan_no_workers_def
        leader_globals_def world_empty_child_def gather_getnext.simps gather_getnext_round_def
        ExecProcNode_def log_event_def Let_def)
  from C3_terminal_absorbing[OF r e, of 3 leader_globals] r e show ?thesis
    by (simp add: numeral_3_eq_3)
qed

subsection \<open>The sticky cursor\<close>

text \<open>
  Claim C4. One turn of the loop reads the reader under the cursor. If the read gives a
  tuple, the turn returns it and leaves \<open>nextreader\<close> as it is. If the reader is done, the
  cursor is not moved on: it keeps its index, where the next reader now stands, or goes to 0
  when that index is past the shortened array. Only when the read gives neither a tuple nor
  the done signal is \<open>nextreader\<close> incremented, back to 0 at the end. So a tuple that
  \<^verbatim>\<open>gather_readnext\<close> returns was read, by the last read of the call, from the reader that
  is under the cursor when the call returns.
\<close>

theorem C4_sticky_cursor:
  assumes "cursor_in_range gs" "reader gs = Some arr" "\<not> InterruptPending w"
    "TupleQueueReaderNext (arr ! nextreader gs) = (tup, readerdone, rd')"
  shows "(\<exists>w' gs' nv'.
            (gather_readnext_turn w gs nv = Exit tup w' gs' \<or>
             gather_readnext_turn w gs nv = Again w' gs' nv') \<and>
            (tup \<noteq> None \<longrightarrow> gather_readnext_turn w gs nv = Exit tup w' gs') \<and>
            nextreader gs' =
              (if readerdone then (if nextreader gs < nreaders gs' then nextreader gs else 0)
               else if tup \<noteq> None then nextreader gs
               else if nextreader gs + 1 \<ge> nreaders gs then 0 else nextreader gs + 1)) \<and>
         (\<forall>t w' gs'. gather_readnext w gs = Inr (Some t, w', gs') \<longrightarrow>
            (\<exists>arr' es. reader gs' = Some arr' \<and> nextreader gs' < nreaders gs' \<and>
               trace w' =
                 trace w @ es @
                 [EvTupleQueueReaderNext (rid (arr' ! nextreader gs')) (Some t) False]))"
proof
  from assms(1) obtain a where a: "reader gs = Some a" "nextreader gs < nreaders gs"
    "nreaders gs \<le> length a" "nextreader gs < length a"
    by (rule cursor_in_rangeD)
  with assms(2) have [simp]: "a = arr" by simp
  from assms(3) a(1,2,4)
  show "\<exists>w' gs' nv'.
            (gather_readnext_turn w gs nv = Exit tup w' gs' \<or>
             gather_readnext_turn w gs nv = Again w' gs' nv') \<and>
            (tup \<noteq> None \<longrightarrow> gather_readnext_turn w gs nv = Exit tup w' gs') \<and>
            nextreader gs' =
              (if readerdone then (if nextreader gs < nreaders gs' then nextreader gs else 0)
               else if tup \<noteq> None then nextreader gs
               else if nextreader gs + 1 \<ge> nreaders gs then 0 else nextreader gs + 1)"
  proof (cases rule: turn_cases[where nv = nv])
    case done_last
    with assms(4) a(2) show ?thesis by (simp add: TupleQueueReaderNext_def)
  next
    case done_more
    with assms(4) a(2) show ?thesis by (auto simp: TupleQueueReaderNext_def)
  next
    case (tuple t rest)
    with assms(4) show ?thesis by (auto simp: TupleQueueReaderNext_def)
  next
    case (empty rest)
    with assms(4) show ?thesis by (auto simp: TupleQueueReaderNext_def Let_def)
  qed
next
  show "\<forall>t w' gs'. gather_readnext w gs = Inr (Some t, w', gs') \<longrightarrow>
            (\<exists>arr' es. reader gs' = Some arr' \<and> nextreader gs' < nreaders gs' \<and>
               trace w' =
                 trace w @ es @
                 [EvTupleQueueReaderNext (rid (arr' ! nextreader gs')) (Some t) False])"
    using loop_tuple_cursor[OF _ assms(1)] by (simp add: gather_readnext_def)
qed

text \<open>
  The first queue is empty and the second has a tuple: the first turn moves the cursor to 1,
  the call returns the tuple 5 and leaves the cursor at 1.
\<close>

theorem C4_sticky_cursor_witness:
  "cursor_in_range node_second_reader_busy \<and>
   TupleQueueReaderNext \<lparr>rid = 0, pending = [None]\<rparr> = (None, False, \<lparr>rid = 0, pending = []\<rparr>) \<and>
   map_sum id (\<lambda>(r, w', gs'). (r, nextreader gs', trace w'))
     (gather_readnext (world_two_workers\<lparr>trace := []\<rparr>) node_second_reader_busy) =
     Inr (Some 5, 1, [EvTupleQueueReaderNext 0 None False, EvTupleQueueReaderNext 1 (Some 5) False]) \<and>
   (\<exists>w' gs' nv'.
      (gather_readnext_turn (world_two_workers\<lparr>trace := []\<rparr>) node_second_reader_busy 0 =
         Exit None w' gs' \<or>
       gather_readnext_turn (world_two_workers\<lparr>trace := []\<rparr>) node_second_reader_busy 0 =
         Again w' gs' nv') \<and> nextreader gs' = 1)"
proof -
  have r: "cursor_in_range node_second_reader_busy"
    by (simp add: cursor_in_range_def node_second_reader_busy_def)
  have a: "reader node_second_reader_busy =
             Some [\<lparr>rid = 0, pending = [None]\<rparr>, \<lparr>rid = 1, pending = [Some 5, Some 6]\<rparr>]"
    by (simp add: node_second_reader_busy_def)
  have i: "\<not> InterruptPending (world_two_workers\<lparr>trace := []\<rparr>)"
    by (simp add: world_two_workers_def)
  have q: "TupleQueueReaderNext
             ([\<lparr>rid = 0, pending = [None]\<rparr>, \<lparr>rid = 1, pending = [Some 5, Some 6]\<rparr>] !
                nextreader node_second_reader_busy) =
           (None, False, \<lparr>rid = 0, pending = []\<rparr>)"
    by (simp add: TupleQueueReaderNext_def node_second_reader_busy_def)
  have e: "map_sum id (\<lambda>(r, w', gs'). (r, nextreader gs', trace w'))
     (gather_readnext (world_two_workers\<lparr>trace := []\<rparr>) node_second_reader_busy) =
     Inr (Some 5, 1, [EvTupleQueueReaderNext 0 None False, EvTupleQueueReaderNext 1 (Some 5) False])"
    by (simp add: gather_readnext_def gather_readnext_loop.simps gather_readnext_turn_def
        node_second_reader_busy_def world_two_workers_def TupleQueueReaderNext_def log_event_def
        ExecInitGather_def Let_def)
  have n: "nreaders node_second_reader_busy = 2" "nextreader node_second_reader_busy = 0"
    by (simp_all add: node_second_reader_busy_def)
  from C4_sticky_cursor[OF r a i q, of 0] n
  have "\<exists>w' gs' nv'.
      (gather_readnext_turn (world_two_workers\<lparr>trace := []\<rparr>) node_second_reader_busy 0 =
         Exit None w' gs' \<or>
       gather_readnext_turn (world_two_workers\<lparr>trace := []\<rparr>) node_second_reader_busy 0 =
         Again w' gs' nv') \<and> nextreader gs' = 1"
    by auto
  with r e show ?thesis by (simp add: TupleQueueReaderNext_def)
qed

subsection \<open>The cursor stays in range\<close>

text \<open>
  Claim C5. A failed \<^verbatim>\<open>Assert\<close> before a read, a read outside the array and a read
  through a \<^verbatim>\<open>NULL\<close> array are error results, and no call of \<^verbatim>\<open>ExecGather\<close> on a
  reachable node ends in one of them: at every read \<open>nextreader < nreaders\<close> holds and
  the entry read is inside the array. When the reader under a cursor in range is done, the
  turn removes it: if it was the last one the array is freed and the loop ends; otherwise
  the live readers are the old ones without it, \<open>nreaders\<close> is one less, \<open>nextreader\<close>
  keeps its value or is 0 when that value is out of range, the cursor is in range again for
  the next read, and \<^verbatim>\<open>nvisited\<close> is what it was.
\<close>

theorem C5_cursor_in_range_at_every_read:
  assumes "reachable gs"
    and "cursor_in_range gs1" "reader gs1 = Some arr" "\<not> InterruptPending w1"
      "pending (arr ! nextreader gs1) = []"
  shows "ExecGather glb w gs \<noteq> Inl AssertFailed \<and> ExecGather glb w gs \<noteq> Inl OutOfBounds \<and>
         ExecGather glb w gs \<noteq> Inl NullReaderArray \<and>
         (if nreaders gs1 = 1
          then \<exists>w2 gs2. gather_readnext_turn w1 gs1 nv = Exit None w2 gs2 \<and> reader gs2 = None
          else \<exists>w2 gs2. gather_readnext_turn w1 gs1 nv = Again w2 gs2 nv \<and>
                 nreaders gs2 = nreaders gs1 - 1 \<and>
                 live gs2 = take (nextreader gs1) (live gs1) @ drop (Suc (nextreader gs1)) (live gs1) \<and>
                 nextreader gs2 = (if nextreader gs1 < nreaders gs2 then nextreader gs1 else 0) \<and>
                 cursor_in_range gs2)"
proof -
  have 1: "ExecGather glb w gs \<noteq> Inl AssertFailed \<and> ExecGather glb w gs \<noteq> Inl OutOfBounds \<and>
         ExecGather glb w gs \<noteq> Inl NullReaderArray"
    using ExecGather_Inl[OF reachable_inv[OF assms(1)], of glb w] by auto
  from assms(2) obtain a where a: "reader gs1 = Some a" "nextreader gs1 < nreaders gs1"
    "nreaders gs1 \<le> length a" "nextreader gs1 < length a"
    by (rule cursor_in_rangeD)
  with assms(3) have [simp]: "a = arr" by simp
  from assms(4) a(1,2,4)
  have 2: "if nreaders gs1 = 1
          then \<exists>w2 gs2. gather_readnext_turn w1 gs1 nv = Exit None w2 gs2 \<and> reader gs2 = None
          else \<exists>w2 gs2. gather_readnext_turn w1 gs1 nv = Again w2 gs2 nv \<and>
                 nreaders gs2 = nreaders gs1 - 1 \<and>
                 live gs2 = take (nextreader gs1) (live gs1) @ drop (Suc (nextreader gs1)) (live gs1) \<and>
                 nextreader gs2 = (if nextreader gs1 < nreaders gs2 then nextreader gs1 else 0) \<and>
                 cursor_in_range gs2"
  proof (cases rule: turn_cases[where nv = nv])
    case done_last
    then show ?thesis by simp
  next
    case done_more
    note st = done_more_state[OF assms(2,3) done_more(2)]
    from done_more st a(2) show ?thesis by auto
  next
    case (tuple t rest)
    with assms(5) show ?thesis by simp
  next
    case (empty rest)
    with assms(5) show ?thesis by simp
  qed
  from 1 2 show ?thesis by blast
qed

text \<open>The second of two readers is done and the cursor is on it: the cursor goes back to 0.\<close>

theorem C5_cursor_in_range_at_every_read_witness:
  "reachable (ExecInitGather plan_two_workers) \<and>
   cursor_in_range node_last_reader_done \<and>
   map_sum id fst (ExecGather leader_globals world_two_workers (ExecInitGather plan_two_workers)) =
     Inr (Some 1) \<and>
   (\<exists>w2 gs2. gather_readnext_turn world_two_workers node_last_reader_done 0 = Again w2 gs2 0 \<and>
      nreaders gs2 = 1 \<and> nextreader gs2 = 0 \<and> live gs2 = [\<lparr>rid = 0, pending = [Some 9]\<rparr>] \<and>
      cursor_in_range gs2)"
proof -
  have r: "reachable (ExecInitGather plan_two_workers)" by (rule reachable.init)
  have c: "cursor_in_range node_last_reader_done"
    by (simp add: cursor_in_range_def node_last_reader_done_def)
  have a: "reader node_last_reader_done =
             Some [\<lparr>rid = 0, pending = [Some 9]\<rparr>, \<lparr>rid = 1, pending = []\<rparr>]"
    by (simp add: node_last_reader_done_def)
  have i: "\<not> InterruptPending world_two_workers" by (simp add: world_two_workers_def)
  have p: "pending ([\<lparr>rid = 0, pending = [Some 9]\<rparr>, \<lparr>rid = 1, pending = []\<rparr>] !
             nextreader node_last_reader_done) = []"
    by (simp add: node_last_reader_done_def)
  have e: "map_sum id fst
      (ExecGather leader_globals world_two_workers (ExecInitGather plan_two_workers)) = Inr (Some 1)"
    by code_simp
  have l: "live node_last_reader_done = [\<lparr>rid = 0, pending = [Some 9]\<rparr>, \<lparr>rid = 1, pending = []\<rparr>]"
    "nreaders node_last_reader_done = 2" "nextreader node_last_reader_done = 1"
    by (simp_all add: live_def node_last_reader_done_def)
  from C5_cursor_in_range_at_every_read[OF r c a i p, of leader_globals world_two_workers 0] l
  have "\<exists>w2 gs2. gather_readnext_turn world_two_workers node_last_reader_done 0 = Again w2 gs2 0 \<and>
      nreaders gs2 = 1 \<and> nextreader gs2 = 0 \<and> live gs2 = [\<lparr>rid = 0, pending = [Some 9]\<rparr>] \<and>
      cursor_in_range gs2"
    by auto
  with r c e show ?thesis by simp
qed

subsection \<open>No local scan beside the workers\<close>

text \<open>
  Claim C6. When the first call of a scan launches at least one worker
  (\<^verbatim>\<open>launchedWorkers\<close> is at least 1), no call of the scan pulls a tuple from the local
  plan: the log of any number of calls has as many \<^verbatim>\<open>ExecProcNode\<close> entries as before
  the scan, after the workers are exhausted too. This holds for every plan, so in particular
  in single-copy mode.
\<close>

theorem C6_no_local_scan_beside_workers:
  assumes "1 \<le> fst (snd (ExecGather_setup glb w gs))"
    "ExecGather_times k glb w gs = Inr (slots, w', gs')"
  shows "local_pulls (trace w') = local_pulls (trace w)"
proof (cases k)
  case 0
  with assms(2) show ?thesis by simp
next
  case (Suc k')
  with assms(2) obtain r wa gsa rs where
    c: "ExecGather glb w gs = Inr (r, wa, gsa)" "ExecGather_times k' glb wa gsa = Inr (rs, w', gs')"
    by (auto split: sum.splits prod.splits)
  obtain psend launched w1 gs1 where
    su: "ExecGather_setup glb w gs = (psend, launched, w1, gs1)"
    by (cases "ExecGather_setup glb w gs") auto
  with assms(1) have l: "1 \<le> launched" by simp
  note sl = setup_launched[OF su l]
  from setup_events[OF su] have p1: "local_pulls (trace w1) = local_pulls (trace w)"
    by (auto simp: no_tuple_events_pulls)
  have ni: "\<not> InterruptPending w" using c(1) by (auto simp: ExecGather_def split: if_splits)
  have a: "initialized gsa \<and> \<not> need_to_scan_locally gsa \<and>
           local_pulls (trace wa) = local_pulls (trace w)"
  proof (cases psend)
    case True
    with c(1) su ni sl p1 show ?thesis
      by (auto simp: ExecGather_def Let_def log_event_def)
  next
    case False
    from su False have su': "ExecGather_setup glb w gs = (False, launched, w1, gs1)" by simp
    from setup_frame[OF su] have "InterruptPending w1 = InterruptPending w" by simp
    from ExecGather_after_setup[OF su' sl(1) this] c(1)
    have "ExecGather glb w1 gs1 = Inr (r, wa, gsa)" by simp
    from call_without_local[OF sl(1,2) this] p1 show ?thesis by simp
  qed
  with calls_without_local[OF _ _ c(2)] show ?thesis by simp
qed

text \<open>
  Single-copy, one worker launched, its queue empty for a while between its two tuples: four
  calls, one wait, no pull from the local plan although it has tuples.
\<close>

theorem C6_no_local_scan_beside_workers_witness:
  "single_copy plan_single_copy \<and>
   fst (snd (ExecGather_setup leader_globals world_one_worker (ExecInitGather plan_single_copy))) = 1 \<and>
   map_sum id (\<lambda>(slots, w', gs'). (slots, local_pulls (trace w')))
     (ExecGather_times 4 leader_globals world_one_worker (ExecInitGather plan_single_copy)) =
     Inr ([Some 1, Some 2, None, None], 0)"
proof -
  have s: "fst (snd (ExecGather_setup leader_globals world_one_worker
             (ExecInitGather plan_single_copy))) = 1"
    by (simp add: ExecGather_setup_def leader_globals_def world_one_worker_def
        ExecInitGather_def plan_single_copy_def LaunchParallelWorkers_def log_event_def
        log_events_def Let_def)
  have "\<exists>w' gs'. ExecGather_times 4 leader_globals world_one_worker (ExecInitGather plan_single_copy) =
          Inr ([Some 1, Some 2, None, None], w', gs')"
    by (simp add: numeral_Bit0 ExecGather_def ExecGather_setup_def leader_globals_def
        world_one_worker_def ExecInitGather_def plan_single_copy_def LaunchParallelWorkers_def
        log_event_def log_events_def Let_def gather_getnext.simps gather_getnext_round_def
        gather_readnext_def gather_readnext_loop.simps gather_readnext_turn_def
        TupleQueueReaderNext_def ExecShutdownGatherWorkers_def enumerate_eq_zip)
  then obtain w' gs' where
    e: "ExecGather_times 4 leader_globals world_one_worker (ExecInitGather plan_single_copy) =
          Inr ([Some 1, Some 2, None, None], w', gs')"
    by blast
  have t: "local_pulls (trace world_one_worker) = 0" by (simp add: world_one_worker_def)
  from C6_no_local_scan_beside_workers[OF _ e] s t e show ?thesis
    by (simp add: plan_single_copy_def)
qed

subsection \<open>The leader as fallback\<close>

text \<open>
  Claim C7, as amended. On a reachable node that is not yet initialized and whose plan has
  \<open>parallelWorker_sendTuple\<close> off, if the first call launches no worker
  (\<^verbatim>\<open>launchedWorkers\<close> is 0), the calls return the tuples of the leader's child plan, each
  one projected, in the child's order, and then the empty slot.
\<close>

theorem C7_leader_fallback:
  assumes "reachable gs" "\<not> initialized gs" "\<not> parallelWorker_sendTuple (ps_plan gs)"
    "\<not> InterruptPending w" "fst (snd (ExecGather_setup glb w gs)) = 0"
  shows "\<exists>w' gs'. ExecGather_times (length (outer_rows w) + 1) glb w gs =
           Inr (map (\<lambda>t. Some (ps_ProjInfo gs t)) (outer_rows w) @ [None], w', gs')"
proof -
  obtain psend launched w1 gs1 where
    su0: "ExecGather_setup glb w gs = (psend, launched, w1, gs1)"
    by (cases "ExecGather_setup glb w gs") auto
  with assms(5) have su: "ExecGather_setup glb w gs = (psend, 0, w1, gs1)" by simp
  note n = setup_none_launched[OF reachable_inv[OF assms(1)] assms(2,3) su]
  from su n(1) have su': "ExecGather_setup glb w gs = (False, 0, w1, gs1)" by simp
  note f = setup_frame[OF su]
  from f assms(4) have i1: "\<not> InterruptPending w1" by simp
  from f have e: "ExecGather glb w gs = ExecGather glb w1 gs1"
    by (intro ExecGather_after_setup[OF su' n(4)]) simp
  from local_calls[OF n(4,2,3) i1, of glb] f e show ?thesis by simp
qed

text \<open>Two workers are asked for, none starts, the child has the tuples 1, 2 and 3.\<close>

theorem C7_leader_fallback_witness:
  "reachable (ExecInitGather plan_two_workers) \<and>
   fst (snd (ExecGather_setup leader_globals (world_no_launch)
               (ExecInitGather plan_two_workers))) = 0 \<and>
   map_sum id fst (ExecGather_times 4 leader_globals world_no_launch (ExecInitGather plan_two_workers)) =
     Inr [Some 1, Some 2, Some 3, None]"
proof -
  have r: "reachable (ExecInitGather plan_two_workers)" by (rule reachable.init)
  have i: "\<not> initialized (ExecInitGather plan_two_workers)"
    "\<not> parallelWorker_sendTuple (ps_plan (ExecInitGather plan_two_workers))"
    "\<not> InterruptPending world_no_launch"
    by (simp_all add: ExecInitGather_def plan_two_workers_def world_no_launch_def)
  have s: "fst (snd (ExecGather_setup leader_globals world_no_launch
             (ExecInitGather plan_two_workers))) = 0"
    by (simp add: ExecGather_setup_def leader_globals_def world_no_launch_def
        ExecInitGather_def plan_two_workers_def LaunchParallelWorkers_def log_event_def
        ExecShutdownGatherWorkers_def Let_def)
  have o: "outer_rows world_no_launch = [1, 2, 3]"
    "ps_ProjInfo (ExecInitGather plan_two_workers) = (\<lambda>t. t)"
    by (simp_all add: world_no_launch_def ExecInitGather_def plan_two_workers_def)
  have n: "length (outer_rows world_no_launch) + 1 = 4" by (simp add: world_no_launch_def)
  from C7_leader_fallback[OF r i s]
  have "\<exists>w' gs'. ExecGather_times 4 leader_globals world_no_launch (ExecInitGather plan_two_workers) =
           Inr (map (\<lambda>t. Some (ps_ProjInfo (ExecInitGather plan_two_workers) t))
                  (outer_rows world_no_launch) @ [None], w', gs')"
    unfolding n .
  with o r s show ?thesis by (auto simp del: ExecGather_times.simps)
qed

text \<open>
  The claim as stated fails when \<open>parallelWorker_sendTuple\<close> is set: no worker starts, the
  child has the tuples 1, 2 and 3, and every call returns the empty slot.
\<close>

theorem C7_parallel_send_counterexample:
  "fst (snd (ExecGather_setup leader_globals world_no_launch
               (ExecInitGather plan_parallel_send))) = 0 \<and>
   outer_rows world_no_launch = [1, 2, 3] \<and>
   map_sum id fst (ExecGather_times 4 leader_globals world_no_launch
                     (ExecInitGather plan_parallel_send)) = Inr [None, None, None, None]"
  by code_simp

subsection \<open>Fairness\<close>

text \<open>
  Claim C8. In a call of \<^verbatim>\<open>gather_readnext\<close> from a state with the cursor in range, every
  reader that is alive at a \<^verbatim>\<open>WaitLatch\<close> has been read since the previous
  \<^verbatim>\<open>WaitLatch\<close> of the call, and before the first one since the call began. So between
  any two consecutive waits, of one call or of two, every surviving reader is polled.
\<close>

theorem C8_every_survivor_polled_between_waits:
  assumes "cursor_in_range gs" "gather_readnext (w\<lparr>trace := []\<rparr>) gs = Inr (r, w', gs')"
  shows "polled_between_waits (rid ` set (live gs)) {} (trace w')"
proof -
  from assms(1) obtain arr where a: "reader gs = Some arr" by (rule cursor_in_rangeD)
  note ring = cursor_ring_Cons[OF assms(1) a]
  have "set (drop (nreaders gs - 0) (cursor_ring gs)) \<subseteq> {}" using ring(2) by simp
  from loop_fair[OF assms(2)[unfolded gather_readnext_def] assms(1) this] ring(4)
  show ?thesis by auto
qed

text \<open>Two idle rounds, two waits, then a tuple from the first queue.\<close>

theorem C8_every_survivor_polled_between_waits_witness:
  "cursor_in_range node_two_idle_readers \<and>
   map_sum id (\<lambda>(r, w', gs'). (r, trace w'))
     (gather_readnext (world_two_workers\<lparr>trace := []\<rparr>) node_two_idle_readers) =
     Inr (Some 7,
          [EvTupleQueueReaderNext 0 None False, EvTupleQueueReaderNext 1 None False, EvWaitLatch,
           EvTupleQueueReaderNext 0 None False, EvTupleQueueReaderNext 1 None False, EvWaitLatch,
           EvTupleQueueReaderNext 0 (Some 7) False]) \<and>
   polled_between_waits {0, 1} {}
     [EvTupleQueueReaderNext 0 None False, EvTupleQueueReaderNext 1 None False, EvWaitLatch,
      EvTupleQueueReaderNext 0 None False, EvTupleQueueReaderNext 1 None False, EvWaitLatch,
      EvTupleQueueReaderNext 0 (Some 7) False]"
proof -
  have r: "cursor_in_range node_two_idle_readers"
    by (simp add: cursor_in_range_def node_two_idle_readers_def)
  have "\<exists>w' gs'. gather_readnext (world_two_workers\<lparr>trace := []\<rparr>) node_two_idle_readers =
          Inr (Some 7, w', gs') \<and>
          trace w' =
            [EvTupleQueueReaderNext 0 None False, EvTupleQueueReaderNext 1 None False, EvWaitLatch,
             EvTupleQueueReaderNext 0 None False, EvTupleQueueReaderNext 1 None False, EvWaitLatch,
             EvTupleQueueReaderNext 0 (Some 7) False]"
    by (simp add: gather_readnext_def gather_readnext_loop.simps gather_readnext_turn_def
        node_two_idle_readers_def world_two_workers_def TupleQueueReaderNext_def log_event_def
        ExecInitGather_def Let_def)
  then obtain w' gs' where
    e: "gather_readnext (world_two_workers\<lparr>trace := []\<rparr>) node_two_idle_readers = Inr (Some 7, w', gs')"
    and t: "trace w' =
            [EvTupleQueueReaderNext 0 None False, EvTupleQueueReaderNext 1 None False, EvWaitLatch,
             EvTupleQueueReaderNext 0 None False, EvTupleQueueReaderNext 1 None False, EvWaitLatch,
             EvTupleQueueReaderNext 0 (Some 7) False]"
    by blast
  have l: "rid ` set (live node_two_idle_readers) = {0, 1}"
    by (simp add: live_def node_two_idle_readers_def)
  from C8_every_survivor_polled_between_waits[OF r e] r e t l show ?thesis by simp
qed

subsection \<open>The statistics\<close>

text \<open>
  Claim C9, as amended. With \<^verbatim>\<open>enable_statistic\<close> set, in a scan whose first call launches
  at least one worker, from the counters as \<^verbatim>\<open>ExecInitGather\<close> sets them (0 and -1) and
  with a clock that does not go back: after \<open>k\<close> calls that each return a tuple,
  \<open>get_tuples\<close> is \<open>k\<close>, and \<open>get_total_time\<close> is the sum of the read latencies of the
  second to the \<open>k\<close>-th call. The latency of the first call is not added: that call takes
  \<open>get_total_time\<close> from -1 to 0. And a call after which the leader is scanning locally,
  or which returns the empty slot, leaves both counters as they are: the tuples that the
  leader produces are not counted.
\<close>

theorem C9_statistics_of_a_scan_fed_by_workers:
  assumes "enable_statistic glb" "1 \<le> fst (snd (ExecGather_setup glb w gs))"
    "get_tuples gs = 0" "get_total_time gs = - 1"
    "\<forall>i. clock w i \<le> clock w (Suc i)"
    "ExecGather_times k glb w gs = Inr (slots, w', gs')" "None \<notin> set slots"
    and "ExecGather glb0 w0 gs0 = Inr (r0, w0', gs0')" "need_to_scan_locally gs0' \<or> r0 = None"
  shows "get_tuples gs' = k \<and>
         get_total_time gs' = (if k = 0 then - 1 else (\<Sum>j = 1..<k. read_latency w j)) \<and>
         get_tuples gs0' = get_tuples gs0 \<and> get_total_time gs0' = get_total_time gs0"
  using stat_scan[OF assms(1-7)] call_counters_kept[OF assms(8,9)] by simp

text \<open>
  One worker, two tuples, read in 5 and in 7 microseconds; and no worker, one tuple from the
  leader.
\<close>

theorem C9_statistics_of_a_scan_fed_by_workers_witness:
  "fst (snd (ExecGather_setup stat_globals world_timed (ExecInitGather plan_single_copy))) = 1 \<and>
   map_sum id (\<lambda>(slots, w', gs'). (slots, get_tuples gs', get_total_time gs'))
     (ExecGather_times 2 stat_globals world_timed (ExecInitGather plan_single_copy)) =
     Inr ([Some 1, Some 2], 2, 7) \<and>
   read_latency world_timed 1 = 7 \<and>
   map_sum id (\<lambda>(r, w', gs'). (r, need_to_scan_locally gs', get_tuples gs', get_total_time gs'))
     (ExecGather stat_globals world_timed_leader (ExecInitGather plan_two_workers)) =
     Inr (Some 1, True, 0, - 1)"
proof -
  have s: "fst (snd (ExecGather_setup stat_globals world_timed (ExecInitGather plan_single_copy))) = 1"
    by (simp add: ExecGather_setup_def stat_globals_def world_timed_def
        ExecInitGather_def plan_single_copy_def LaunchParallelWorkers_def log_event_def
        log_events_def Let_def)
  have "\<exists>w' gs'. ExecGather_times 2 stat_globals world_timed (ExecInitGather plan_single_copy) =
          Inr ([Some 1, Some 2], w', gs')"
    by (simp add: numeral_2_eq_2 ExecGather_def ExecGather_setup_def stat_globals_def
        world_timed_def ExecInitGather_def plan_single_copy_def LaunchParallelWorkers_def
        log_event_def log_events_def Let_def gather_getnext.simps gather_getnext_round_def
        gather_readnext_def gather_readnext_loop.simps gather_readnext_turn_def
        TupleQueueReaderNext_def GetCurrentTimestamp_def enumerate_eq_zip)
  then obtain w' gs' where
    e: "ExecGather_times 2 stat_globals world_timed (ExecInitGather plan_single_copy) =
          Inr ([Some 1, Some 2], w', gs')"
    by blast
  have "\<exists>w0' gs0'. ExecGather stat_globals world_timed_leader (ExecInitGather plan_two_workers) =
          Inr (Some 1, w0', gs0') \<and> need_to_scan_locally gs0'"
    by (simp add: ExecGather_def ExecGather_setup_def stat_globals_def
        world_timed_leader_def ExecInitGather_def plan_two_workers_def LaunchParallelWorkers_def
        ExecShutdownGatherWorkers_def log_event_def Let_def gather_getnext.simps
        gather_getnext_round_def ExecProcNode_def)
  then obtain w0' gs0' where
    e0: "ExecGather stat_globals world_timed_leader (ExecInitGather plan_two_workers) =
          Inr (Some 1, w0', gs0')"
    and n0: "need_to_scan_locally gs0'"
    by blast
  from n0 have n0': "need_to_scan_locally gs0' \<or> Some (1::nat) = None" by simp
  have g: "enable_statistic stat_globals" "get_tuples (ExecInitGather plan_single_copy) = 0"
    "get_total_time (ExecInitGather plan_single_copy) = - 1"
    "get_tuples (ExecInitGather plan_two_workers) = 0"
    "get_total_time (ExecInitGather plan_two_workers) = - 1"
    by (simp_all add: stat_globals_def ExecInitGather_def)
  have m: "\<forall>i. clock world_timed i \<le> clock world_timed (Suc i)"
  proof
    fix i :: nat
    show "clock world_timed i \<le> clock world_timed (Suc i)"
      by (simp add: world_timed_def)
  qed
  have l: "read_latency world_timed 1 = 7"
    by (simp add: read_latency_def world_timed_def)
  have "(\<Sum>j = 1..<2. read_latency world_timed j) = read_latency world_timed 1"
    by (simp add: numeral_2_eq_2)
  with C9_statistics_of_a_scan_fed_by_workers[OF g(1) _ g(2,3) m e _ e0 n0'] s l e e0 n0 g(4,5)
  show ?thesis by simp
qed

text \<open>
  The claim as stated fails twice. With one worker and two tuples read in 5 and in 7
  microseconds, \<open>get_total_time\<close> is 7 after the two tuples and not 12. With no worker,
  the leader returns one tuple and \<open>get_tuples\<close> is still 0.
\<close>

theorem C9_sum_of_latencies_counterexample:
  "map_sum id (\<lambda>(slots, w', gs'). (slots, get_tuples gs', get_total_time gs'))
     (ExecGather_times 2 stat_globals world_timed (ExecInitGather plan_single_copy)) =
     Inr ([Some 1, Some 2], 2, 7) \<and>
   read_latency world_timed 0 + read_latency world_timed 1 = 12 \<and>
   map_sum id (\<lambda>(slots, w', gs'). (slots, get_tuples gs', get_total_time gs'))
     (ExecGather_times 1 stat_globals world_timed_leader (ExecInitGather plan_two_workers)) =
     Inr ([Some 1], 0, - 1)"
  by code_simp

subsection \<open>No tuple is filtered out\<close>

text \<open>
  Claim C10. In a call of \<^verbatim>\<open>ExecGather\<close>, a tuple that a queue read or the local plan
  hands to the node is what the call returns, after projection. The qual that
  \<^verbatim>\<open>ExecInitGather\<close> stores in the node is not read: with any other qual in its place the
  call returns the same slot and leaves the same environment and, but for the qual, the same
  node.
\<close>

theorem C10_every_obtained_tuple_is_returned:
  assumes "ExecGather glb (w\<lparr>trace := []\<rparr>) gs = Inr (r, w', gs')"
  shows "(\<forall>e\<in>set (trace w'). \<forall>t. gets_tuple e = Some t \<longrightarrow> r = Some (ps_ProjInfo gs t)) \<and>
         ExecGather glb (w\<lparr>trace := []\<rparr>) (gs\<lparr>ps_qual := q\<rparr>) = Inr (r, w', gs'\<lparr>ps_qual := q\<rparr>)"
proof
  from call_events[OF assms]
  show "\<forall>e\<in>set (trace w'). \<forall>t. gets_tuple e = Some t \<longrightarrow> r = Some (ps_ProjInfo gs t)"
    by auto
next
  from assms show "ExecGather glb (w\<lparr>trace := []\<rparr>) (gs\<lparr>ps_qual := q\<rparr>) = Inr (r, w', gs'\<lparr>ps_qual := q\<rparr>)"
    by (simp add: ExecGather_qual)
qed

text \<open>
  The qual rejects every tuple and the target list adds 100: the first call reads the tuple
  1 from the first queue and returns 101, as it does with a qual that accepts every tuple.
\<close>

theorem C10_every_obtained_tuple_is_returned_witness:
  "\<not> ps_qual (ExecInitGather plan_rejecting_qual) 1 \<and>
   map_sum id (\<lambda>(r, w', gs'). (r, trace w'))
     (ExecGather leader_globals (world_two_workers\<lparr>trace := []\<rparr>)
        (ExecInitGather plan_rejecting_qual)) =
     Inr (Some 101,
          [EvExecInitParallelPlan 2, EvLaunchParallelWorkers 2, EvCreateTupleQueueReader 0,
           EvCreateTupleQueueReader 1, EvParallelWorkersSetupDone 2,
           EvTupleQueueReaderNext 0 (Some 1) False, EvExecProject 1]) \<and>
   map_sum id fst
     (ExecGather leader_globals (world_two_workers\<lparr>trace := []\<rparr>)
        ((ExecInitGather plan_rejecting_qual)\<lparr>ps_qual := (\<lambda>_. True)\<rparr>)) = Inr (Some 101)"
proof -
  have "\<exists>w' gs'. ExecGather leader_globals (world_two_workers\<lparr>trace := []\<rparr>)
          (ExecInitGather plan_rejecting_qual) = Inr (Some 101, w', gs') \<and>
        trace w' =
          [EvExecInitParallelPlan 2, EvLaunchParallelWorkers 2, EvCreateTupleQueueReader 0,
           EvCreateTupleQueueReader 1, EvParallelWorkersSetupDone 2,
           EvTupleQueueReaderNext 0 (Some 1) False, EvExecProject 1]"
    by (simp add: ExecGather_def ExecGather_setup_def leader_globals_def
        world_two_workers_def ExecInitGather_def plan_rejecting_qual_def LaunchParallelWorkers_def
        log_event_def log_events_def Let_def gather_getnext.simps gather_getnext_round_def
        gather_readnext_def gather_readnext_loop.simps gather_readnext_turn_def
        TupleQueueReaderNext_def enumerate_eq_zip upt_rec)
  then obtain w' gs' where
    e: "ExecGather leader_globals (world_two_workers\<lparr>trace := []\<rparr>)
          (ExecInitGather plan_rejecting_qual) = Inr (Some 101, w', gs')"
    and t: "trace w' =
          [EvExecInitParallelPlan 2, EvLaunchParallelWorkers 2, EvCreateTupleQueueReader 0,
           EvCreateTupleQueueReader 1, EvParallelWorkersSetupDone 2,
           EvTupleQueueReaderNext 0 (Some 1) False, EvExecProject 1]"
    by blast
  have q: "\<not> ps_qual (ExecInitGather plan_rejecting_qual) 1"
    by (simp add: ExecInitGather_def plan_rejecting_qual_def)
  from C10_every_obtained_tuple_is_returned[OF e, of "\<lambda>_. True"] e t q show ?thesis by simp
qed

end
